theory Spec2Isabelle
  imports Main "HOL-Library.Word"
begin

section \<open>The YCSB benchmark driver \<^verbatim>\<open>benchmark-c.cc\<close>\<close>

text \<open>
  A shallow embedding of \<^verbatim>\<open>src/cc/benchmark-dir/benchmark-c.cc\<close>. The engine
  (\<^verbatim>\<open>faster_*\<close>), the file reader, the random generator, the clock and the thread
  scheduler are outside the file: their answers are inputs of the model, and the engine calls
  a thread makes in a session are recorded in order. Left out are the calls that change
  nothing the program reads again: \<^verbatim>\<open>SetThreadAffinity\<close>, \<^verbatim>\<open>printf\<close>, the empty
  callbacks \<^verbatim>\<open>read_cb\<close> and \<^verbatim>\<open>deallocate_vec\<close>, and in \<^verbatim>\<open>main\<close> the opening,
  inspection and destruction of the store around each trial.
\<close>

subsection \<open>Types and compile-time constants\<close>

type_synonym u8 = "8 word"
type_synonym u32 = "32 word"
type_synonym u64 = "64 word"

text \<open>\<^verbatim>\<open>enum class Op : uint8_t\<close>.\<close>

datatype Op = Insert | Read | Upsert | Scan | ReadModifyWrite

text \<open>
  The \<^verbatim>\<open>static constexpr uint64_t\<close> constants. The functions below take them as a
  record, so that they can be run on small corpora; \<open>faster_config\<close> holds the values of
  the source and \<open>static_asserts\<close> its three \<^verbatim>\<open>static_assert\<close>s (which do not compile
  when a divisor is 0).
\<close>

record config =
  kInitCount :: nat
  kTxnCount :: nat
  kChunkSize :: nat
  kRefreshInterval :: nat
  kCompletePendingInterval :: nat

definition faster_config :: config where
  "faster_config =
     \<lparr>kInitCount = 250000000, kTxnCount = 1000000000, kChunkSize = 3200 * 8,
      kRefreshInterval = 64 * 8, kCompletePendingInterval = 1600 * 8\<rparr>"

definition static_asserts :: "config \<Rightarrow> bool" where
  "static_asserts K =
     (0 < kChunkSize K \<and> 0 < kRefreshInterval K \<and>
      kInitCount K * 8 mod kChunkSize K = 0 \<and>
      kTxnCount K * 8 mod kChunkSize K = 0 \<and>
      kCompletePendingInterval K mod kRefreshInterval K = 0)"

definition kNanosPerSecond :: u64 where
  "kNanosPerSecond = 1000000000"

text \<open>
  How a call ends: \<^verbatim>\<open>exit(code)\<close>, a store past the end of an allocation (undefined
  behaviour in C++), a thread schedule that stops before every worker has finished (it
  describes no complete execution), or a normal return.
\<close>

datatype 'a result = Exit nat | Overrun | Unfinished | Return 'a

subsection \<open>Operation mixers\<close>

text \<open>
  \<^verbatim>\<open>std::mt19937\<close> is library code: a generator is the sequence of its 32-bit outputs
  and the position of the next one. \<^verbatim>\<open>rng()\<close> returns that output and advances.
\<close>

record mt19937 =
  draws :: "nat \<Rightarrow> u32"
  pos :: nat

definition rng_call :: "mt19937 \<Rightarrow> u32 \<times> mt19937" where
  "rng_call rng = (draws rng (pos rng), rng\<lparr>pos := Suc (pos rng)\<rparr>)"

definition ycsb_a_50_50 :: "mt19937 \<Rightarrow> Op \<times> mt19937" where
  "ycsb_a_50_50 rng =
     (case rng_call rng of (r, rng') \<Rightarrow>
        (if r mod 100 < 50 then Read else Upsert, rng'))"

definition ycsb_rmw_100 :: "mt19937 \<Rightarrow> Op \<times> mt19937" where
  "ycsb_rmw_100 rng = (ReadModifyWrite, rng)"

definition ycsb_upsert_100 :: "mt19937 \<Rightarrow> Op \<times> mt19937" where
  "ycsb_upsert_100 rng = (Upsert, rng)"

definition ycsb_read_100 :: "mt19937 \<Rightarrow> Op \<times> mt19937" where
  "ycsb_read_100 rng = (Read, rng)"

text \<open>The operation \<open>ycsb_a_50_50\<close> selects when the generator's next output is \<open>r\<close>.\<close>

definition a_50_50_of_draw :: "u32 \<Rightarrow> Op" where
  "a_50_50_of_draw r = fst (ycsb_a_50_50 \<lparr>draws = (\<lambda>_. r), pos = 0\<rparr>)"

subsection \<open>The merge callback\<close>

text \<open>
  \<^verbatim>\<open>rmw_cb\<close>. Buffers are byte lists, and a read or write past the end of one is
  \<open>OutOfBounds\<close>. The two \<^verbatim>\<open>assert\<close>s are checked unless the build defines
  \<^verbatim>\<open>NDEBUG\<close> (\<open>ndebug\<close>). \<open>dst\<close> is \<open>None\<close> for a null pointer. \<open>val\<close> is the
  local array \<^verbatim>\<open>uint8_t val[8]\<close> as it is found on the stack: only \<open>val[0]\<close> is
  assigned before all 8 bytes are copied to \<open>dst\<close>.
\<close>

datatype fault = AssertionFailed | OutOfBounds

definition rmw_cb ::
  "bool \<Rightarrow> u8 list \<Rightarrow> nat \<Rightarrow> u8 list \<Rightarrow> nat \<Rightarrow> u8 list option \<Rightarrow> u8 list
     \<Rightarrow> fault + (nat \<times> u8 list option)" where
  "rmw_cb ndebug current length' modification modification_length dst val =
     (if \<not> ndebug \<and> length' \<noteq> 8 then Inl AssertionFailed
      else if \<not> ndebug \<and> modification_length \<noteq> 8 then Inl AssertionFailed
      else case dst of
        None \<Rightarrow> Inr (8, None)
      | Some d \<Rightarrow>
          if current = [] \<or> modification = [] then Inl OutOfBounds
          else if length d < 8 then Inl OutOfBounds
          else Inr (8, Some (take 8 (val[0 := hd current + hd modification]) @ drop 8 d)))"

subsection \<open>Loading the key files\<close>

definition kFileChunkSize :: nat where
  "kFileChunkSize = 131072"

text \<open>
  Modelled from the spec: \<^verbatim>\<open>FASTER::benchmark::File::Read\<close> (\<^verbatim>\<open>file.h\<close> is not part
  of the sources). A file is its bytes; a read of \<open>size'\<close> bytes at \<open>offset\<close> returns the
  bytes there, fewer than asked for only at the end of the file ("a short read signals
  end-of-file").
\<close>

definition file_Read :: "u8 list \<Rightarrow> nat \<Rightarrow> nat \<Rightarrow> u8 list" where
  "file_Read file size' offset = take size' (drop offset file)"

text \<open>
  The inner \<^verbatim>\<open>for\<close> loop of \<^verbatim>\<open>load_files\<close>: each byte of the chunk is stored at
  index \<open>count\<close> of the key buffer, which was allocated with \<open>cap\<close> bytes. \<open>keys\<close> holds
  the bytes stored so far. A store at an index \<open>\<ge> cap\<close> is outside the allocation:
  \<open>None\<close>.
\<close>

fun copy_chunk :: "nat \<Rightarrow> u8 list \<Rightarrow> u8 list \<Rightarrow> nat \<Rightarrow> (u8 list \<times> nat) option" where
  "copy_chunk cap [] keys count = Some (keys, count)"
| "copy_chunk cap (b # chunk) keys count =
     (if count < cap then copy_chunk cap chunk (keys @ [b]) (Suc count) else None)"

text \<open>The \<^verbatim>\<open>while(true)\<close> loop: read a block, copy it, stop at the first short read.\<close>

function read_file ::
  "u8 list \<Rightarrow> nat \<Rightarrow> u8 list \<Rightarrow> nat \<Rightarrow> nat \<Rightarrow> (u8 list \<times> nat) option" where
  "read_file file cap keys count offset =
     (let chunk = file_Read file kFileChunkSize offset in
      case copy_chunk cap chunk keys count of
        None \<Rightarrow> None
      | Some (keys', count') \<Rightarrow>
          if length chunk = kFileChunkSize
          then read_file file cap keys' count' (offset + kFileChunkSize)
          else Some (keys', count'))"
  by pat_completeness auto
termination
  by (relation "measure (\<lambda>(file, cap, keys, count, offset). length file - offset)")
     (auto simp: file_Read_def kFileChunkSize_def)

declare read_file.simps [simp del]

text \<open>The test after each loop: \<^verbatim>\<open>if(kInitCount != count / 8)\<close>.\<close>

definition count_mismatch :: "nat \<Rightarrow> nat \<Rightarrow> bool" where
  "count_mismatch expected count = (expected \<noteq> count div 8)"

text \<open>
  One half of \<^verbatim>\<open>load_files\<close>: allocate \<open>expected * sizeof(uint64_t)\<close> bytes, read the
  file into them, compare the count.
\<close>

definition load_keys :: "nat \<Rightarrow> u8 list \<Rightarrow> u8 list result" where
  "load_keys expected file =
     (case read_file file (expected * 8) [] 0 0 of
        None \<Rightarrow> Overrun
      | Some (keys, count) \<Rightarrow> if count_mismatch expected count then Exit 1 else Return keys)"

definition load_files :: "config \<Rightarrow> u8 list \<Rightarrow> u8 list \<Rightarrow> (u8 list \<times> u8 list) result" where
  "load_files K load_file run_file =
     (case load_keys (kInitCount K) load_file of
        Exit c \<Rightarrow> Exit c
      | Overrun \<Rightarrow> Overrun
      | Unfinished \<Rightarrow> Unfinished
      | Return init_keys \<Rightarrow>
          (case load_keys (kTxnCount K) run_file of
             Exit c \<Rightarrow> Exit c
           | Overrun \<Rightarrow> Overrun
           | Unfinished \<Rightarrow> Unfinished
           | Return txn_keys \<Rightarrow> Return (init_keys, txn_keys)))"

subsection \<open>Worker threads\<close>

text \<open>
  The engine calls a thread makes, with the arguments the source passes: the byte offset of
  the key in the key buffer, the key length, the first byte of the value or modification
  buffer, and the value or modification length.
\<close>

datatype call =
    faster_start_session
  | faster_refresh_session
  | faster_complete_pending bool
  | faster_upsert nat nat u8 nat
  | faster_read nat nat
  | faster_rmw nat nat u8 nat
  | faster_stop_session

datatype status = Running | Finished | Exited nat

text \<open>
  A thread of either phase: the engine calls it has made, the values of \<^verbatim>\<open>chunk_idx\<close>
  that passed the loop test, and whether it runs, has returned, or has called
  \<^verbatim>\<open>exit\<close>. A measurement thread also has its generator and its two counters
  (\<^verbatim>\<open>int64_t\<close>; they count at most \<open>kTxnCount\<close> items, so they do not overflow).
\<close>

record session =
  calls :: "call list"
  chunks :: "nat list"
  status :: status

record worker = session +
  rng :: mt19937
  reads_done :: u64
  writes_done :: u64

text \<open>\<^verbatim>\<open>std::atomic<uint64_t>::fetch_add\<close>: the old value, and the new one (the sum wraps).\<close>

definition fetch_add :: "u64 \<Rightarrow> u64 \<Rightarrow> u64 \<times> u64" where
  "fetch_add v n = (v, v + n)"

text \<open>The session maintenance at the head of both item loops (the same lines in both).\<close>

definition refresh_and_drain :: "config \<Rightarrow> nat \<Rightarrow> call list" where
  "refresh_and_drain K idx =
     (if idx mod kRefreshInterval K = 0 then
        faster_refresh_session #
        (if idx mod kCompletePendingInterval K = 0 then [faster_complete_pending False] else [])
      else [])"

text \<open>
  The body of the item loop of \<^verbatim>\<open>thread_setup_store\<close>, and the loop
  \<^verbatim>\<open>for(idx = chunk_idx; idx < chunk_idx + kChunkSize; idx += 8)\<close>. The loop runs only for
  \<open>chunk_idx\<close> below the corpus length; with the constants of the source (and whenever
  \<open>fits_u64\<close> holds) \<open>chunk_idx + kChunkSize\<close> is then below \<open>2 ^ 64\<close> and \<open>idx\<close> does
  not wrap, so the variables of the loop are natural numbers.
\<close>

definition setup_item :: "config \<Rightarrow> nat \<Rightarrow> session \<Rightarrow> session" where
  "setup_item K idx s =
     s\<lparr>calls := calls s @ refresh_and_drain K idx @ [faster_upsert idx 8 42 8]\<rparr>"

function setup_chunk :: "config \<Rightarrow> nat \<Rightarrow> nat \<Rightarrow> session \<Rightarrow> session" where
  "setup_chunk K idx stop s =
     (if idx < stop then setup_chunk K (idx + 8) stop (setup_item K idx s) else s)"
  by pat_completeness auto
termination
  by (relation "measure (\<lambda>(K, idx, stop, s). stop - idx)") auto

declare setup_chunk.simps [simp del]

text \<open>
  \<^verbatim>\<open>thread_setup_store\<close>: the thread starts a session; each step is one round of the
  outer loop, the \<^verbatim>\<open>fetch_add\<close> on the shared counter and then either the chunk or,
  when the counter has passed the corpus, the blocking drain and the end of the session.
\<close>

definition thread_setup_store_start :: session where
  "thread_setup_store_start = \<lparr>calls = [faster_start_session], chunks = [], status = Running\<rparr>"

definition thread_setup_store_step :: "config \<Rightarrow> u64 \<Rightarrow> session \<Rightarrow> u64 \<times> session" where
  "thread_setup_store_step K ctr s =
     (case fetch_add ctr (of_nat (kChunkSize K)) of (chunk_idx, ctr') \<Rightarrow>
        if chunk_idx < of_nat (kInitCount K * 8)
        then (ctr', setup_chunk K (unat chunk_idx) (unat chunk_idx + kChunkSize K)
                      (s\<lparr>chunks := chunks s @ [unat chunk_idx]\<rparr>))
        else (ctr', s\<lparr>calls := calls s @ [faster_complete_pending True, faster_stop_session],
                       status := Finished\<rparr>))"

text \<open>
  The threads of a phase run interleaved. A schedule lists which thread takes the next
  step; an entry that names no running thread is skipped. Once a thread has called
  \<^verbatim>\<open>exit\<close> the process is gone and nothing runs. A step is one \<^verbatim>\<open>fetch_add\<close> on
  the shared counter together with what the thread does until its next one: that part
  touches the thread's own variables and its engine session only, so it commutes with the
  steps of the other threads, and the additions to the shared totals at the end of a
  measurement thread commute with each other.
\<close>

fun process_exited :: "'a session_scheme list \<Rightarrow> nat option" where
  "process_exited [] = None"
| "process_exited (s # ths) = (case status s of Exited c \<Rightarrow> Some c | _ \<Rightarrow> process_exited ths)"

fun run_threads ::
  "(nat \<Rightarrow> 'g \<Rightarrow> 'a session_scheme \<Rightarrow> 'g \<times> 'a session_scheme) \<Rightarrow> nat list \<Rightarrow> 'g
     \<Rightarrow> 'a session_scheme list \<Rightarrow> 'g \<times> 'a session_scheme list" where
  "run_threads step [] g ths = (g, ths)"
| "run_threads step (t # sched) g ths =
     (if process_exited ths \<noteq> None then (g, ths)
      else if t < length ths \<and> status (ths ! t) = Running then
        (case step t g (ths ! t) of
           (g', s') \<Rightarrow> run_threads step sched g' (ths[t := s']))
      else run_threads step sched g ths)"

text \<open>
  \<^verbatim>\<open>setup_store\<close>: reset \<^verbatim>\<open>idx_\<close>, spawn \<open>num_threads\<close> threads, join them. It
  returns the threads once all have finished.
\<close>

definition setup_store :: "config \<Rightarrow> nat \<Rightarrow> nat list \<Rightarrow> session list result" where
  "setup_store K num_threads sched =
     (case run_threads (\<lambda>thread_idx. thread_setup_store_step K) sched 0
             (replicate num_threads thread_setup_store_start) of
        (ctr, ths) \<Rightarrow>
          if list_all (\<lambda>s. status s = Finished) ths then Return ths else Unfinished)"

subsection \<open>The measurement phase\<close>

text \<open>The process-wide atomics (\<^verbatim>\<open>idx_\<close>, \<^verbatim>\<open>threads_waiting_\<close>, \<^verbatim>\<open>total_duration_\<close>, ...).\<close>

record shared =
  next_idx :: u64
  threads_waiting :: u64
  total_duration :: u64
  total_reads_done :: u64
  total_writes_done :: u64

text \<open>
  What a measurement phase takes from outside: the thread schedule, for each thread the
  outputs of its generator (seeded from \<^verbatim>\<open>std::random_device\<close>), the status the engine
  returns for the read-modify-write a thread issues on a key offset, and the nanoseconds
  between each thread's two clock readings.
\<close>

record bench_env =
  schedule :: "nat list"
  rd :: "nat \<Rightarrow> nat \<Rightarrow> u32"
  rmw_status :: "nat \<Rightarrow> nat \<Rightarrow> u8"
  duration :: "nat \<Rightarrow> u64"

text \<open>The body of the item loop of \<^verbatim>\<open>thread_run_benchmark\<close>, and the loop.\<close>

definition run_item ::
  "config \<Rightarrow> (mt19937 \<Rightarrow> Op \<times> mt19937) \<Rightarrow> (nat \<Rightarrow> u8) \<Rightarrow> nat \<Rightarrow> worker \<Rightarrow> worker" where
  "run_item K FN rmw idx w0 =
     (let w = w0\<lparr>calls := calls w0 @ refresh_and_drain K idx\<rparr> in
      case FN (rng w) of (op, rng') \<Rightarrow>
        (case op of
           Insert \<Rightarrow>
             w\<lparr>calls := calls w @ [faster_upsert idx 8 42 8], rng := rng',
               writes_done := writes_done w + 1\<rparr>
         | Upsert \<Rightarrow>
             w\<lparr>calls := calls w @ [faster_upsert idx 8 42 8], rng := rng',
               writes_done := writes_done w + 1\<rparr>
         | Scan \<Rightarrow> w\<lparr>status := Exited 1, rng := rng'\<rparr>
         | Read \<Rightarrow>
             w\<lparr>calls := calls w @ [faster_read idx 8], rng := rng',
               reads_done := reads_done w + 1\<rparr>
         | ReadModifyWrite \<Rightarrow>
             (let result = rmw idx in
              w\<lparr>calls := calls w @ [faster_rmw idx 8 0 1], rng := rng',
                writes_done := (if result = 0 then writes_done w + 1 else writes_done w)\<rparr>)))"

function run_chunk ::
  "config \<Rightarrow> (mt19937 \<Rightarrow> Op \<times> mt19937) \<Rightarrow> (nat \<Rightarrow> u8) \<Rightarrow> nat \<Rightarrow> nat \<Rightarrow> worker \<Rightarrow> worker" where
  "run_chunk K FN rmw idx stop w =
     (if idx < stop \<and> status w = Running
      then run_chunk K FN rmw (idx + 8) stop (run_item K FN rmw idx w)
      else w)"
  by pat_completeness auto
termination
  by (relation "measure (\<lambda>(K, FN, rmw, idx, stop, w). stop - idx)") auto

declare run_chunk.simps [simp del]

text \<open>
  \<^verbatim>\<open>thread_run_benchmark<FN>\<close>: as above; on exhaustion the thread decrements
  \<^verbatim>\<open>threads_waiting_\<close>, drains, stops the session and adds its duration and counters to
  the totals.
\<close>

definition thread_run_benchmark_start :: "(nat \<Rightarrow> u32) \<Rightarrow> worker" where
  "thread_run_benchmark_start seed =
     \<lparr>calls = [faster_start_session], chunks = [], status = Running,
      rng = \<lparr>draws = seed, pos = 0\<rparr>, reads_done = 0, writes_done = 0\<rparr>"

definition thread_run_benchmark_step ::
  "config \<Rightarrow> (mt19937 \<Rightarrow> Op \<times> mt19937) \<Rightarrow> bench_env \<Rightarrow> nat \<Rightarrow> shared \<Rightarrow> worker
     \<Rightarrow> shared \<times> worker" where
  "thread_run_benchmark_step K FN E thread_idx sh w =
     (case fetch_add (next_idx sh) (of_nat (kChunkSize K)) of (chunk_idx, ctr') \<Rightarrow>
        if chunk_idx div 8 \<ge> of_nat (kTxnCount K)
        then (sh\<lparr>next_idx := ctr',
                  threads_waiting := threads_waiting sh - 1,
                  total_duration := total_duration sh + duration E thread_idx,
                  total_reads_done := total_reads_done sh + reads_done w,
                  total_writes_done := total_writes_done sh + writes_done w\<rparr>,
              w\<lparr>calls := calls w @ [faster_complete_pending True, faster_stop_session],
                status := Finished\<rparr>)
        else (sh\<lparr>next_idx := ctr'\<rparr>,
              run_chunk K FN (rmw_status E thread_idx) (unat chunk_idx)
                (unat chunk_idx + kChunkSize K) (w\<lparr>chunks := chunks w @ [unat chunk_idx]\<rparr>)))"

text \<open>
  The \<^verbatim>\<open>double\<close> operations of the throughput formula are parameters: the conversion
  from \<^verbatim>\<open>uint64_t\<close>, addition and division.
\<close>

record 'f double_ops =
  double_of :: "u64 \<Rightarrow> 'f"
  double_add :: "'f \<Rightarrow> 'f \<Rightarrow> 'f"
  double_div :: "'f \<Rightarrow> 'f \<Rightarrow> 'f"

definition ops_per_second_per_thread :: "'f double_ops \<Rightarrow> shared \<Rightarrow> 'f" where
  "ops_per_second_per_thread D sh =
     double_div D
       (double_add D (double_of D (total_reads_done sh)) (double_of D (total_writes_done sh)))
       (double_div D (double_of D (total_duration sh)) (double_of D kNanosPerSecond))"

text \<open>
  \<^verbatim>\<open>run_benchmark<FN>\<close>: reset the shared state, spawn \<open>num_threads\<close> threads, wait
  until \<^verbatim>\<open>threads_waiting_\<close> is 0 and join the threads (that is: until all have finished),
  compute the figure. A thread that calls \<^verbatim>\<open>exit(1)\<close> ends the process.
\<close>

definition run_benchmark ::
  "config \<Rightarrow> 'f double_ops \<Rightarrow> (mt19937 \<Rightarrow> Op \<times> mt19937) \<Rightarrow> bench_env \<Rightarrow> nat
     \<Rightarrow> ('f \<times> worker list) result" where
  "run_benchmark K D FN E num_threads =
     (case run_threads (thread_run_benchmark_step K FN E) (schedule E)
             \<lparr>next_idx = 0, threads_waiting = of_nat num_threads, total_duration = 0,
              total_reads_done = 0, total_writes_done = 0\<rparr>
             (map (\<lambda>thread_idx. thread_run_benchmark_start (rd E thread_idx)) [0..<num_threads]) of
        (sh, ws) \<Rightarrow>
          (case process_exited ws of
             Some c \<Rightarrow> Exit c
           | None \<Rightarrow>
               if list_all (\<lambda>w. status w = Finished) ws
               then Return (ops_per_second_per_thread D sh, ws)
               else Unfinished))"

subsection \<open>\<^verbatim>\<open>main\<close>\<close>

text \<open>
  The command line as \<^verbatim>\<open>main\<close> sees it after \<^verbatim>\<open>atol\<close> and the cast to
  \<^verbatim>\<open>Workload\<close> (an enumeration over \<^verbatim>\<open>int\<close>, so any integer can arrive), and the
  contents of the two files it names.
\<close>

record invocation =
  argc :: nat
  workload :: int
  num_threads :: nat
  load_file :: "u8 list"
  run_file :: "u8 list"

text \<open>The schedule of the population phase and the inputs of the measurement phase, by trial.\<close>

record env =
  population_schedule :: "nat \<Rightarrow> nat list"
  benchmark_env :: "nat \<Rightarrow> bench_env"

text \<open>
  What \<^verbatim>\<open>main\<close> has done: the map \<^verbatim>\<open>results_\<close>, the phases that have returned (with
  their threads), and the number of trials completed.
\<close>

datatype 'f phase = Populated "session list" | Measured "worker list" 'f

record 'f main_state =
  results :: "nat \<Rightarrow> 'f list option"
  phases :: "'f phase list"
  trials_done :: nat

definition kNumArgs :: nat where
  "kNumArgs = 4"

text \<open>The \<^verbatim>\<open>switch(workload)\<close>.\<close>

definition benchmark_workload ::
  "config \<Rightarrow> 'f double_ops \<Rightarrow> int \<Rightarrow> bench_env \<Rightarrow> nat \<Rightarrow> ('f \<times> worker list) result" where
  "benchmark_workload K D wl E n =
     (if wl = 0 then run_benchmark K D ycsb_a_50_50 E n
      else if wl = 1 then run_benchmark K D ycsb_rmw_100 E n
      else if wl = 2 then run_benchmark K D ycsb_upsert_100 E n
      else if wl = 3 then run_benchmark K D ycsb_read_100 E n
      else Exit 1)"

text \<open>The body of the loop over \<open>j\<close>: populate with 48 threads, measure, record the result.\<close>

definition trial ::
  "config \<Rightarrow> 'f double_ops \<Rightarrow> invocation \<Rightarrow> env \<Rightarrow> 'f main_state \<Rightarrow> 'f main_state \<times> unit result" where
  "trial K D args E st =
     (case setup_store K 48 (population_schedule E (trials_done st)) of
        Exit c \<Rightarrow> (st, Exit c)
      | Overrun \<Rightarrow> (st, Overrun)
      | Unfinished \<Rightarrow> (st, Unfinished)
      | Return ths \<Rightarrow>
          (let st1 = st\<lparr>phases := phases st @ [Populated ths]\<rparr> in
           case benchmark_workload K D (workload args) (benchmark_env E (trials_done st))
                  (num_threads args) of
             Exit c \<Rightarrow> (st1, Exit c)
           | Overrun \<Rightarrow> (st1, Overrun)
           | Unfinished \<Rightarrow> (st1, Unfinished)
           | Return (r, ws) \<Rightarrow>
               (st1\<lparr>phases := phases st1 @ [Measured ws r],
                    results := (results st1)(num_threads args \<mapsto>
                      (case results st1 (num_threads args) of None \<Rightarrow> [] | Some v \<Rightarrow> v) @ [r]),
                    trials_done := Suc (trials_done st1)\<rparr>,
                Return ())))"

text \<open>\<^verbatim>\<open>for (int j = 0; j < 3; j++)\<close>, over the list of the values of \<open>j\<close>.\<close>

fun trials ::
  "config \<Rightarrow> 'f double_ops \<Rightarrow> invocation \<Rightarrow> env \<Rightarrow> nat list \<Rightarrow> 'f main_state
     \<Rightarrow> 'f main_state \<times> unit result" where
  "trials K D args E [] st = (st, Return ())"
| "trials K D args E (j # js) st =
     (case trial K D args E st of
        (st', Return u) \<Rightarrow> trials K D args E js st'
      | (st', Exit c) \<Rightarrow> (st', Exit c)
      | (st', Overrun) \<Rightarrow> (st', Overrun)
      | (st', Unfinished) \<Rightarrow> (st', Unfinished))"

text \<open>
  \<^verbatim>\<open>for (auto const& num_benchmark_threads: thread_configurations)\<close>. The body resets
  \<^verbatim>\<open>results_[num_threads]\<close> and runs the three trials; it does not mention
  \<open>num_benchmark_threads\<close>.
\<close>

fun configurations ::
  "config \<Rightarrow> 'f double_ops \<Rightarrow> invocation \<Rightarrow> env \<Rightarrow> nat list \<Rightarrow> 'f main_state
     \<Rightarrow> 'f main_state \<times> unit result" where
  "configurations K D args E [] st = (st, Return ())"
| "configurations K D args E (num_benchmark_threads # cs) st =
     (case trials K D args E [0, 1, 2] (st\<lparr>results := (results st)(num_threads args \<mapsto> [])\<rparr>) of
        (st', Return u) \<Rightarrow> configurations K D args E cs st'
      | (st', Exit c) \<Rightarrow> (st', Exit c)
      | (st', Overrun) \<Rightarrow> (st', Overrun)
      | (st', Unfinished) \<Rightarrow> (st', Unfinished))"

definition main ::
  "config \<Rightarrow> 'f double_ops \<Rightarrow> invocation \<Rightarrow> env \<Rightarrow> 'f main_state \<times> nat result" where
  "main K D args E =
     (let st0 = \<lparr>results = Map.empty, phases = [], trials_done = 0\<rparr> in
      if argc args \<noteq> kNumArgs + 1 then (st0, Exit 0)
      else case load_files K (load_file args) (run_file args) of
        Exit c \<Rightarrow> (st0, Exit c)
      | Overrun \<Rightarrow> (st0, Overrun)
      | Unfinished \<Rightarrow> (st0, Unfinished)
      | Return keys \<Rightarrow>
          (let thread_configurations =
                 (if num_threads args = 0 then [1, 2, 4, 8, 16, 32, 48] else [num_threads args])
           in case configurations K D args E thread_configurations st0 of
                (st, Return u) \<Rightarrow> (st, Return 0)
              | (st, Exit c) \<Rightarrow> (st, Exit c)
              | (st, Overrun) \<Rightarrow> (st, Overrun)
              | (st, Unfinished) \<Rightarrow> (st, Unfinished)))"

subsection \<open>Vocabulary of the properties\<close>

text \<open>The chunks a phase has handed out: the start offsets, over all its threads.\<close>

definition issued :: "'a session_scheme list \<Rightarrow> nat list" where
  "issued ths = concat (map chunks ths)"

text \<open>The byte range of the chunk that starts at \<open>start\<close>.\<close>

definition chunk_range :: "nat \<Rightarrow> nat \<Rightarrow> nat set" where
  "chunk_range C start = {start ..< start + C}"

text \<open>
  The chunks starting at \<open>cs\<close> partition \<open>[0, L)\<close>: no two of them overlap, and together
  they cover it.
\<close>

definition partitions :: "nat \<Rightarrow> nat \<Rightarrow> nat list \<Rightarrow> bool" where
  "partitions C L cs =
     ((\<forall>i<length cs. \<forall>j<length cs. i \<noteq> j \<longrightarrow> chunk_range C (cs ! i) \<inter> chunk_range C (cs ! j) = {}) \<and>
      (\<Union>c\<in>set cs. chunk_range C c) = {0 ..< L})"

text \<open>
  The shared counter is 64 bits wide: the corpus lengths, and the counter's last value
  after each of \<open>W\<close> threads (48 in the population phase) has seen it exhausted, fit.
\<close>

definition fits_u64 :: "config \<Rightarrow> nat \<Rightarrow> bool" where
  "fits_u64 K W =
     (kInitCount K * 8 + kChunkSize K * 48 < 2 ^ 64 \<and>
      kTxnCount K * 8 + kChunkSize K * W < 2 ^ 64)"

text \<open>
  A schedule lets each of \<open>W\<close> threads take more than \<open>m\<close> steps; round-robin schedules
  do.
\<close>

definition fair :: "nat \<Rightarrow> nat \<Rightarrow> nat list \<Rightarrow> bool" where
  "fair W m sched = (\<forall>t<W. m < count_list sched t)"

definition round_robin :: "nat \<Rightarrow> nat \<Rightarrow> nat list" where
  "round_robin W n = concat (replicate n [0..<W])"

definition env_fair :: "config \<Rightarrow> nat \<Rightarrow> env \<Rightarrow> bool" where
  "env_fair K W E =
     (\<forall>n. fair 48 (kInitCount K * 8 div kChunkSize K) (population_schedule E n) \<and>
          fair W (kTxnCount K * 8 div kChunkSize K) (schedule (benchmark_env E n)))"

text \<open>A mixer that never selects \<open>Scan\<close>.\<close>

definition never_scan :: "(mt19937 \<Rightarrow> Op \<times> mt19937) \<Rightarrow> bool" where
  "never_scan FN = (\<forall>g. fst (FN g) \<noteq> Scan)"

text \<open>
  The key offset of a data operation, and the data operations of a trace. The items of a
  chunk are the values of \<open>idx\<close> in the item loop; the items of a thread are those of its
  chunks, in order.
\<close>

fun item_key :: "call \<Rightarrow> nat option" where
  "item_key (faster_upsert key key_length v value_length) = Some key"
| "item_key (faster_read key key_length) = Some key"
| "item_key (faster_rmw key key_length m modification_length) = Some key"
| "item_key _ = None"

definition data_ops :: "call list \<Rightarrow> call list" where
  "data_ops cs = filter (\<lambda>c. item_key c \<noteq> None) cs"

function chunk_items :: "nat \<Rightarrow> nat \<Rightarrow> nat list" where
  "chunk_items idx stop = (if idx < stop then idx # chunk_items (idx + 8) stop else [])"
  by pat_completeness auto
termination
  by (relation "measure (\<lambda>(idx, stop). stop - idx)") auto

declare chunk_items.simps [simp del]

definition worker_items :: "config \<Rightarrow> 'a session_scheme \<Rightarrow> nat list" where
  "worker_items K s = concat (map (\<lambda>c. chunk_items c (c + kChunkSize K)) (chunks s))"

text \<open>
  The trace in which each item's data operation is preceded by the session maintenance
  due at that item, and by nothing else.
\<close>

fun weave :: "config \<Rightarrow> nat list \<Rightarrow> call list \<Rightarrow> call list" where
  "weave K (idx # its) (op # ops) = refresh_and_drain K idx @ op # weave K its ops"
| "weave K _ _ = []"

text \<open>The number of threads of a phase; \<open>n\<close> rounds of a list.\<close>

definition phase_threads :: "'f phase \<Rightarrow> nat" where
  "phase_threads ph = (case ph of Populated ths \<Rightarrow> length ths | Measured ws r \<Rightarrow> length ws)"

definition rounds :: "nat \<Rightarrow> nat list \<Rightarrow> nat list" where
  "rounds n xs = concat (replicate n xs)"

subsection \<open>Invariants used in the proofs\<close>

definition finished :: "'a session_scheme list \<Rightarrow> nat" where
  "finished ths = length (filter (\<lambda>s. status s = Finished) ths)"

text \<open>
  After \<open>n\<close> chunks have been issued and \<open>f\<close> threads have finished, the counter is
  \<open>C * (n + f)\<close>, the chunks issued start at the first \<open>n\<close> multiples of \<open>C\<close>, and no
  thread has finished before the corpus was exhausted.
\<close>

definition distributor_inv :: "nat \<Rightarrow> nat \<Rightarrow> u64 \<Rightarrow> 'a session_scheme list \<Rightarrow> bool" where
  "distributor_inv C L ctr ths =
     (unat ctr = C * (length (issued ths) + finished ths) \<and>
      set (issued ths) = (\<lambda>k. C * k) ` {..<length (issued ths)} \<and>
      length (issued ths) \<le> L div C \<and>
      (0 < finished ths \<longrightarrow> length (issued ths) = L div C))"

definition phase_inv :: "nat \<Rightarrow> nat \<Rightarrow> nat \<Rightarrow> nat list \<Rightarrow> u64 \<Rightarrow> 'a session_scheme list \<Rightarrow> bool" where
  "phase_inv C L W p ctr ths =
     (length ths = W \<and> distributor_inv C L ctr ths \<and>
      (\<forall>t<W. status (ths ! t) = Running \<longrightarrow> count_list p t = length (chunks (ths ! t))))"

definition setup_inv :: "config \<Rightarrow> nat \<Rightarrow> nat list \<Rightarrow> u64 \<Rightarrow> session list \<Rightarrow> bool" where
  "setup_inv K W p ctr ths =
     (phase_inv (kChunkSize K) (kInitCount K * 8) W p ctr ths \<and> process_exited ths = None)"

definition published :: "(worker \<Rightarrow> u64) \<Rightarrow> worker list \<Rightarrow> u64" where
  "published f ws = (\<Sum>t<length ws. if status (ws ! t) = Finished then f (ws ! t) else 0)"

definition published_duration :: "bench_env \<Rightarrow> worker list \<Rightarrow> u64" where
  "published_duration E ws = (\<Sum>t<length ws. if status (ws ! t) = Finished then duration E t else 0)"

definition totals_inv :: "bench_env \<Rightarrow> shared \<Rightarrow> worker list \<Rightarrow> bool" where
  "totals_inv E sh ws =
     (total_reads_done sh = published reads_done ws \<and>
      total_writes_done sh = published writes_done ws \<and>
      total_duration sh = published_duration E ws)"

definition bench_start :: "bench_env \<Rightarrow> nat \<Rightarrow> shared \<times> worker list" where
  "bench_start E W =
     (\<lparr>next_idx = 0, threads_waiting = of_nat W, total_duration = 0,
       total_reads_done = 0, total_writes_done = 0\<rparr>,
      map (\<lambda>thread_idx. thread_run_benchmark_start (rd E thread_idx)) [0..<W])"

definition paced :: "config \<Rightarrow> nat list \<Rightarrow> call list \<Rightarrow> bool" where
  "paced K its cs =
     (cs = faster_start_session # weave K its (data_ops cs) \<and>
      map item_key (data_ops cs) = map Some its)"

definition finished_paced :: "config \<Rightarrow> 'a session_scheme \<Rightarrow> bool" where
  "finished_paced K s =
     (calls s = faster_start_session # weave K (worker_items K s) (data_ops (calls s)) @
                  [faster_complete_pending True, faster_stop_session] \<and>
      map item_key (data_ops (calls s)) = map Some (worker_items K s))"

definition trace_inv :: "config \<Rightarrow> 'a session_scheme \<Rightarrow> bool" where
  "trace_inv K s =
     (case status s of
        Running \<Rightarrow> paced K (worker_items K s) (calls s)
      | Finished \<Rightarrow> finished_paced K s
      | Exited c \<Rightarrow> True)"


fun rmw_lengths_ok :: "call \<Rightarrow> bool" where
  "rmw_lengths_ok (faster_rmw key key_length m modification_length) =
     (key_length = 8 \<and> modification_length = 1)"
| "rmw_lengths_ok _ = True"

subsection \<open>Concrete inputs\<close>

text \<open>
  A small configuration (4 load keys, 8 run keys, chunks of 2 keys, a refresh at every
  key and a drain at every second one) with inputs for two threads, and the free algebra
  of the \<^verbatim>\<open>double\<close> operations, in which a figure is the expression that computes it.
\<close>

definition small_config :: config where
  "small_config =
     \<lparr>kInitCount = 4, kTxnCount = 8, kChunkSize = 16, kRefreshInterval = 8,
      kCompletePendingInterval = 16\<rparr>"

definition small_env :: bench_env where
  "small_env =
     \<lparr>schedule = [0, 1, 0, 1, 0, 1, 0],
      rd = (\<lambda>t n. of_nat (49 + t + n)),
      rmw_status = (\<lambda>t idx. if idx = 8 then 1 else 0),
      duration = (\<lambda>t. 1000)\<rparr>"

datatype double_expr = DConst u64 | DAdd double_expr double_expr | DDiv double_expr double_expr

definition symbolic :: "double_expr double_ops" where
  "symbolic = \<lparr>double_of = DConst, double_add = DAdd, double_div = DDiv\<rparr>"

text \<open>
  Inputs for the constants of the source: key files of exactly the expected sizes, and
  round-robin schedules long enough for every thread to see the counter exhausted.
\<close>

definition full_args :: "int \<Rightarrow> nat \<Rightarrow> invocation" where
  "full_args wl n =
     \<lparr>argc = 5, workload = wl, num_threads = n,
      load_file = replicate 2000000000 0, run_file = replicate 8000000000 0\<rparr>"

definition round_robin_env :: "nat \<Rightarrow> env" where
  "round_robin_env W =
     \<lparr>population_schedule = (\<lambda>n. round_robin 48 78126),
      benchmark_env = (\<lambda>n. \<lparr>schedule = round_robin W 312501, rd = (\<lambda>t n. 0),
                             rmw_status = (\<lambda>t idx. 0), duration = (\<lambda>t. 1)\<rparr>)\<rparr>"

text \<open>What is compared of a worker, and the two workers the small measurement ends with.\<close>

definition worker_view :: "worker \<Rightarrow> call list \<times> nat list \<times> status \<times> u64 \<times> u64" where
  "worker_view w = (calls w, chunks w, status w, reads_done w, writes_done w)"

definition small_rmw_views :: "(call list \<times> nat list \<times> status \<times> u64 \<times> u64) list" where
  "small_rmw_views =
     [([faster_start_session, faster_refresh_session, faster_complete_pending False,
        faster_rmw 0 8 0 1, faster_refresh_session, faster_rmw 8 8 0 1,
        faster_refresh_session, faster_complete_pending False, faster_rmw 32 8 0 1,
        faster_refresh_session, faster_rmw 40 8 0 1,
        faster_complete_pending True, faster_stop_session],
       [0, 32], Finished, 0, 3),
      ([faster_start_session, faster_refresh_session, faster_complete_pending False,
        faster_rmw 16 8 0 1, faster_refresh_session, faster_rmw 24 8 0 1,
        faster_refresh_session, faster_complete_pending False, faster_rmw 48 8 0 1,
        faster_refresh_session, faster_rmw 56 8 0 1,
        faster_complete_pending True, faster_stop_session],
       [16, 48], Finished, 0, 4)]"

section \<open>Lemmas\<close>

subsection \<open>The 50/50 mixer\<close>

lemma a_50_50_of_draw_unat:
  "a_50_50_of_draw r = (if unat r mod 100 < 50 then Read else Upsert)"
proof -
  have "(r mod 100 < 50) = (unat r mod 100 < 50)"
    by (simp add: word_less_nat_alt unat_mod)
  then show ?thesis
    by (simp add: a_50_50_of_draw_def ycsb_a_50_50_def rng_call_def)
qed

lemma card_low_residues:
  assumes "r \<le> 100"
  shows "card {n::nat. n < 100 * q + r \<and> n mod 100 < 50} = 50 * q + min r 50"
proof (induction q)
  case 0
  have "{n::nat. n < 100 * 0 + r \<and> n mod 100 < 50} = {..<min r 50}"
    using assms by auto
  then show ?case by simp
next
  case (Suc q)
  let ?S = "{n::nat. n < 100 * q + r \<and> n mod 100 < 50}"
  have split: "{n::nat. n < 100 * Suc q + r \<and> n mod 100 < 50} = {..<50} \<union> (\<lambda>n. n + 100) ` ?S"
  proof (rule set_eqI, rule iffI)
    fix n assume n: "n \<in> {n::nat. n < 100 * Suc q + r \<and> n mod 100 < 50}"
    show "n \<in> {..<50} \<union> (\<lambda>n. n + 100) ` ?S"
    proof (cases "n < 100")
      case True
      with n show ?thesis by simp
    next
      case False
      then have "n = (n - 100) + 100" by simp
      moreover have "n - 100 \<in> ?S"
      proof -
        have "n mod 100 = (n - 100) mod 100" using False by (simp add: le_mod_geq)
        moreover have "n - 100 < 100 * q + r" using n False by auto
        ultimately show ?thesis using n by simp
      qed
      ultimately show ?thesis by blast
    qed
  next
    fix n assume "n \<in> {..<50} \<union> (\<lambda>n. n + 100) ` ?S"
    then show "n \<in> {n::nat. n < 100 * Suc q + r \<and> n mod 100 < 50}"
      by auto
  qed
  have fin: "finite ?S" by simp
  have disj: "{..<50::nat} \<inter> (\<lambda>n. n + 100) ` ?S = {}" by auto
  have "card ({..<50::nat} \<union> (\<lambda>n. n + 100) ` ?S) = 50 + card ((\<lambda>n. n + 100) ` ?S)"
    using fin disj by (simp add: card_Un_disjoint)
  also have "card ((\<lambda>n. n + 100) ` ?S) = card ?S"
    by (rule card_image) (simp add: inj_on_def)
  finally show ?case using Suc.IH split by simp
qed

lemma unat_image_u32:
  "unat ` {r::u32. P (unat r)} = {n. n < 2 ^ 32 \<and> P n}"
proof (rule set_eqI, rule iffI)
  fix n assume "n \<in> unat ` {r::u32. P (unat r)}"
  then obtain r :: u32 where "n = unat r" "P (unat r)" by blast
  moreover have "unat r < 2 ^ 32" using unsigned_less [of r] by simp
  ultimately show "n \<in> {n. n < 2 ^ 32 \<and> P n}" by simp
next
  fix n assume "n \<in> {n. n < 2 ^ 32 \<and> P n}"
  then have n: "n < 2 ^ 32" "P n" by simp_all
  then have "unat (of_nat n :: u32) = n" by (simp add: unat_of_nat)
  with n show "n \<in> unat ` {r::u32. P (unat r)}" by (metis (mono_tags, lifting) imageI mem_Collect_eq)
qed

lemma card_u32_pred:
  "card {r::u32. P (unat r)} = card {n. n < 2 ^ 32 \<and> P n}"
proof -
  have "card (unat ` {r::u32. P (unat r)}) = card {r::u32. P (unat r)}"
    by (rule card_image) (simp add: inj_on_def word_unat_eq_iff)
  then show ?thesis by (simp add: unat_image_u32)
qed

lemma card_reads: "card {r::u32. a_50_50_of_draw r = Read} = 2147483650"
proof -
  have "{r::u32. a_50_50_of_draw r = Read} = {r::u32. unat r mod 100 < 50}"
    by (auto simp: a_50_50_of_draw_unat)
  also have "card \<dots> = card {n::nat. n < 2 ^ 32 \<and> n mod 100 < 50}"
    by (rule card_u32_pred)
  also have "(2::nat) ^ 32 = 100 * 42949672 + 96" by simp
  also have "card {n::nat. n < 100 * 42949672 + 96 \<and> n mod 100 < 50} = 50 * 42949672 + min 96 50"
    by (rule card_low_residues) simp
  finally show ?thesis by simp
qed

lemma card_writes: "card {r::u32. a_50_50_of_draw r = Upsert} = 2147483646"
proof -
  have "{r::u32. a_50_50_of_draw r = Upsert} = UNIV - {r::u32. a_50_50_of_draw r = Read}"
    by (auto simp: a_50_50_of_draw_unat)
  then have "card {r::u32. a_50_50_of_draw r = Upsert} =
      card (UNIV :: u32 set) - card {r::u32. a_50_50_of_draw r = Read}"
    by (simp add: card_Diff_subset)
  then show ?thesis by (simp add: card_reads card_word)
qed

subsection \<open>Loading the key files\<close>

lemma copy_chunk_eq:
  "count \<le> cap \<Longrightarrow> copy_chunk cap chunk keys count =
     (if count + length chunk \<le> cap then Some (keys @ chunk, count + length chunk) else None)"
  by (induction chunk arbitrary: keys count) auto

lemma read_file_eq:
  "count \<le> cap \<Longrightarrow> read_file fl cap keys count offset =
     (if count + (length fl - offset) \<le> cap
      then Some (keys @ drop offset fl, count + (length fl - offset)) else None)"
proof (induction fl cap keys count offset rule: read_file.induct)
  case (1 fl cap keys count offset)
  let ?chunk = "file_Read fl kFileChunkSize offset"
  have len: "length ?chunk = min kFileChunkSize (length fl - offset)"
    by (simp add: file_Read_def)
  note cc = copy_chunk_eq [OF "1.prems"]
  show ?case
  proof (cases "count + length ?chunk \<le> cap")
    case False
    then show ?thesis
      using len by (subst read_file.simps) (simp add: cc Let_def)
  next
    case fits: True
    show ?thesis
    proof (cases "length ?chunk = kFileChunkSize")
      case True
      then have ge: "kFileChunkSize \<le> length fl - offset" using len by simp
      have cat: "?chunk @ drop (offset + kFileChunkSize) fl = drop offset fl"
        by (simp add: file_Read_def add.commute flip: drop_drop)
      have "read_file fl cap keys count offset =
              read_file fl cap (keys @ ?chunk) (count + kFileChunkSize) (offset + kFileChunkSize)"
        using fits True by (subst read_file.simps) (simp add: cc Let_def)
      also have "\<dots> = (if count + kFileChunkSize + (length fl - (offset + kFileChunkSize)) \<le> cap
          then Some ((keys @ ?chunk) @ drop (offset + kFileChunkSize) fl,
                     count + kFileChunkSize + (length fl - (offset + kFileChunkSize)))
          else None)"
        using fits True by (intro "1.IH" [OF refl]) (simp_all add: cc)
      finally have step: "read_file fl cap keys count offset =
          (if count + kFileChunkSize + (length fl - (offset + kFileChunkSize)) \<le> cap
           then Some ((keys @ ?chunk) @ drop (offset + kFileChunkSize) fl,
                     count + kFileChunkSize + (length fl - (offset + kFileChunkSize)))
           else None)" .
      have arith: "count + kFileChunkSize + (length fl - (offset + kFileChunkSize)) =
                   count + (length fl - offset)"
        using ge by arith
      show ?thesis unfolding step arith using cat by simp
    next
      case False
      then have short: "length fl - offset < kFileChunkSize" using len by simp
      then have "?chunk = drop offset fl" by (simp add: file_Read_def)
      then show ?thesis
        using fits False by (subst read_file.simps) (simp add: cc Let_def)
    qed
  qed
qed

lemma load_keys_eq:
  "load_keys expected fl =
     (if expected * 8 < length fl then Overrun
      else if length fl \<noteq> expected * 8 then Exit 1
      else Return fl)"
  by (auto simp: load_keys_def read_file_eq count_mismatch_def)

subsection \<open>The scheduler\<close>

lemma run_threads_rule:
  assumes init: "I p g ths"
    and step: "\<And>p t g ths g' s'. \<lbrakk>I p g ths; process_exited ths = None; t < length ths;
                 status (ths ! t) = Running; step t g (ths ! t) = (g', s')\<rbrakk>
               \<Longrightarrow> I (p @ [t]) g' (ths[t := s'])"
    and skip: "\<And>p t g ths. \<lbrakk>I p g ths; \<not> (t < length ths \<and> status (ths ! t) = Running)\<rbrakk>
               \<Longrightarrow> I (p @ [t]) g ths"
    and res: "run_threads step sched g ths = (g', ths')"
  shows "\<exists>q. I q g' ths' \<and> (process_exited ths' = None \<longrightarrow> q = p @ sched)"
  using init res
proof (induction sched arbitrary: p g ths)
  case Nil
  then show ?case by auto
next
  case (Cons t sched)
  show ?case
  proof (cases "process_exited ths \<noteq> None")
    case True
    with Cons.prems show ?thesis by auto
  next
    case alive: False
    show ?thesis
    proof (cases "t < length ths \<and> status (ths ! t) = Running")
      case True
      obtain g1 s1 where s: "step t g (ths ! t) = (g1, s1)" by (cases "step t g (ths ! t)")
      have "I (p @ [t]) g1 (ths[t := s1])"
        using step [OF Cons.prems(1) _ _ _ s] alive True by simp
      moreover have "run_threads step sched g1 (ths[t := s1]) = (g', ths')"
        using Cons.prems(2) alive True s by simp
      ultimately show ?thesis using Cons.IH [of "p @ [t]" g1 "ths[t := s1]"] by simp
    next
      case False
      have "I (p @ [t]) g ths" using skip [OF Cons.prems(1) False] .
      moreover have "run_threads step sched g ths = (g', ths')"
        using Cons.prems(2) alive False by auto
      ultimately show ?thesis using Cons.IH [of "p @ [t]" g ths] by simp
    qed
  qed
qed

subsection \<open>The shared counter\<close>

lemma concat_map_nth_split:
  "t < length xs \<Longrightarrow>
   concat (map f xs) = concat (map f (take t xs)) @ f (xs ! t) @ concat (map f (drop (Suc t) xs))"
  by (subst id_take_nth_drop [of t xs]) simp_all

lemma concat_map_update:
  "t < length xs \<Longrightarrow>
   concat (map f (xs[t := y])) = concat (map f (take t xs)) @ f y @ concat (map f (drop (Suc t) xs))"
  by (simp add: upd_conv_take_nth_drop)

lemma issued_update:
  assumes "t < length ths" "chunks s' = chunks (ths ! t) @ cs"
  shows "set (issued (ths[t := s'])) = set (issued ths) \<union> set cs"
    and "length (issued (ths[t := s'])) = length (issued ths) + length cs"
  using assms
  by (auto simp: issued_def concat_map_update concat_map_nth_split [of t ths chunks])

lemma filter_update_length:
  assumes "t < length xs" "\<not> P (xs ! t)"
  shows "length (filter P (xs[t := y])) = length (filter P xs) + (if P y then 1 else 0)"
proof -
  have "filter P xs = filter P (take t xs) @ filter P (drop (Suc t) xs)"
    using assms by (subst id_take_nth_drop [of t xs]) simp_all
  then show ?thesis using assms by (simp add: upd_conv_take_nth_drop)
qed

lemma finished_update:
  "t < length ths \<Longrightarrow> status (ths ! t) \<noteq> Finished \<Longrightarrow>
   finished (ths[t := s']) = finished ths + (if status s' = Finished then 1 else 0)"
  unfolding finished_def by (rule filter_update_length) simp_all

lemma finished_less:
  "t < length ths \<Longrightarrow> status (ths ! t) \<noteq> Finished \<Longrightarrow> finished ths < length ths"
  unfolding finished_def by (rule length_filter_less [of "ths ! t"]) simp_all

text \<open>The two kinds of step: a chunk is issued, or the thread sees the counter exhausted.\<close>

lemma mult_succ_le: "k < k' \<Longrightarrow> C * k + C \<le> C * (k'::nat)"
proof -
  assume "k < k'"
  then have "Suc k \<le> k'" by simp
  then have "C * Suc k \<le> C * k'" by (rule mult_le_mono2)
  then show ?thesis by simp
qed

lemma distributor_issue:
  assumes inv: "distributor_inv C L ctr ths"
    and t: "t < length ths" "status (ths ! t) = Running"
    and C: "0 < C" "C dvd L" "L + C * length ths < 2 ^ 64"
    and test: "unat ctr < L"
    and s': "chunks s' = chunks (ths ! t) @ [unat ctr]" "status s' \<noteq> Finished"
  shows "distributor_inv C L (ctr + of_nat C) (ths[t := s'])"
proof -
  let ?n = "length (issued ths)" and ?f = "finished ths"
  from inv have ctr: "unat ctr = C * (?n + ?f)"
    and iss: "set (issued ths) = (\<lambda>k. C * k) ` {..<?n}"
    and le: "?n \<le> L div C" and fin: "0 < ?f \<longrightarrow> ?n = L div C"
    by (simp_all add: distributor_inv_def)
  have L: "C * (L div C) = L" using C(2) by simp
  have f0: "?f = 0"
  proof (rule ccontr)
    assume "?f \<noteq> 0"
    then have "?n = L div C" "1 \<le> ?f" using fin by simp_all
    then have "C * (L div C) \<le> C * (?n + ?f)" by (intro mult_le_mono2) simp
    then have "L \<le> C * (?n + ?f)" using L by simp
    with test ctr show False by simp
  qed
  have lt: "?n < L div C"
  proof (rule ccontr)
    assume "\<not> ?n < L div C"
    then have "?n = L div C" using le by simp
    with test ctr f0 L show False by simp
  qed
  have f': "finished (ths[t := s']) = 0"
    using finished_update [of t ths s'] t s' f0 by simp
  have n': "length (issued (ths[t := s'])) = Suc ?n"
    using issued_update(2) [OF t(1) s'(1)] by simp
  have set': "set (issued (ths[t := s'])) = (\<lambda>k. C * k) ` {..<Suc ?n}"
    using issued_update(1) [OF t(1) s'(1)] iss ctr f0 by (auto simp: lessThan_Suc)
  have "C * ?n + C \<le> C * (L div C)" using lt by (rule mult_succ_le)
  then have cl: "C * Suc ?n \<le> L" using L by simp
  have small1: "C * Suc ?n < 2 ^ 64" using cl C(3) by linarith
  have "C \<le> C * Suc ?n" by simp
  then have small2: "C < 2 ^ 64" using small1 by linarith
  note small = small1 small2
  have "unat (ctr + of_nat C) = (unat ctr + C) mod 2 ^ 64"
    using small(2) by (simp add: unat_word_ariths unat_of_nat)
  also have "\<dots> = C * Suc ?n" using ctr f0 small(1) by simp
  finally show ?thesis
    using f' n' set' lt by (simp add: distributor_inv_def)
qed

lemma distributor_exhaust:
  assumes inv: "distributor_inv C L ctr ths"
    and t: "t < length ths" "status (ths ! t) = Running"
    and C: "0 < C" "C dvd L" "L + C * length ths < 2 ^ 64"
    and test: "\<not> unat ctr < L"
    and s': "chunks s' = chunks (ths ! t)" "status s' = Finished"
  shows "distributor_inv C L (ctr + of_nat C) (ths[t := s'])"
proof -
  let ?n = "length (issued ths)" and ?f = "finished ths"
  from inv have ctr: "unat ctr = C * (?n + ?f)"
    and iss: "set (issued ths) = (\<lambda>k. C * k) ` {..<?n}"
    and le: "?n \<le> L div C" and fin: "0 < ?f \<longrightarrow> ?n = L div C"
    by (simp_all add: distributor_inv_def)
  have L: "C * (L div C) = L" using C(2) by simp
  have full: "?n = L div C"
  proof (cases "0 < ?f")
    case True
    with fin show ?thesis by simp
  next
    case False
    then have "L \<le> C * ?n" using test ctr by simp
    moreover have "C * ?n \<le> C * (L div C)" using le by (rule mult_le_mono2)
    then have "C * ?n \<le> L" using L by simp
    ultimately have "C * ?n = C * (L div C)" using L by simp
    then show ?thesis using C(1) by simp
  qed
  have f': "finished (ths[t := s']) = Suc ?f"
    using finished_update [of t ths s'] t s' by simp
  have s'': "chunks s' = chunks (ths ! t) @ []" using s'(1) by simp
  have n': "length (issued (ths[t := s'])) = ?n"
    using issued_update(2) [OF t(1) s''] by simp
  have set': "set (issued (ths[t := s'])) = set (issued ths)"
    using issued_update(1) [OF t(1) s''] by simp
  have "?f < length ths" using finished_less [of t ths] t by simp
  then have "?n + Suc ?f \<le> L div C + length ths" using le by simp
  then have "C * (?n + Suc ?f) \<le> C * (L div C + length ths)" by (rule mult_le_mono2)
  also have "\<dots> = L + C * length ths" using L by (simp add: distrib_left)
  finally have small1: "C * (?n + Suc ?f) < 2 ^ 64" using C(3) by linarith
  have "C \<le> C * (?n + Suc ?f)" by simp
  then have small2: "C < 2 ^ 64" using small1 by linarith
  have "unat (ctr + of_nat C) = (unat ctr + C) mod 2 ^ 64"
    using small2 by (simp add: unat_word_ariths unat_of_nat)
  also have "unat ctr + C = C * (?n + Suc ?f)" using ctr by simp
  finally have "unat (ctr + of_nat C) = C * (?n + Suc ?f)" using small1 by simp
  then show ?thesis
    using f' n' set' iss full by (simp add: distributor_inv_def)
qed

subsection \<open>A phase, from reset to exhaustion\<close>

lemma phase_inv_skip:
  assumes "phase_inv C L W p ctr ths" "\<not> (t < length ths \<and> status (ths ! t) = Running)"
  shows "phase_inv C L W (p @ [t]) ctr ths"
  using assms by (auto simp: phase_inv_def)

lemma phase_inv_step:
  assumes inv: "phase_inv C L W p ctr ths"
    and t: "t < length ths" "status (ths ! t) = Running"
    and C: "0 < C" "C dvd L" "L + C * W < 2 ^ 64"
    and eff: "if unat ctr < L
              then chunks s' = chunks (ths ! t) @ [unat ctr] \<and> status s' \<noteq> Finished
              else chunks s' = chunks (ths ! t) \<and> status s' = Finished"
  shows "phase_inv C L W (p @ [t]) (ctr + of_nat C) (ths[t := s'])"
proof -
  from inv have len: "length ths = W" and d: "distributor_inv C L ctr ths"
    and cnt: "\<forall>u<W. status (ths ! u) = Running \<longrightarrow> count_list p u = length (chunks (ths ! u))"
    by (simp_all add: phase_inv_def)
  have C': "L + C * length ths < 2 ^ 64" using C(3) len by simp
  have d': "distributor_inv C L (ctr + of_nat C) (ths[t := s'])"
  proof (cases "unat ctr < L")
    case True
    with eff show ?thesis using distributor_issue [OF d t C(1,2) C' True] by simp
  next
    case False
    with eff show ?thesis using distributor_exhaust [OF d t C(1,2) C' False] by simp
  qed
  have "\<forall>u<W. status (ths[t := s'] ! u) = Running \<longrightarrow>
          count_list (p @ [t]) u = length (chunks (ths[t := s'] ! u))"
  proof (intro allI impI)
    fix u assume u: "u < W" and run: "status (ths[t := s'] ! u) = Running"
    show "count_list (p @ [t]) u = length (chunks (ths[t := s'] ! u))"
    proof (cases "u = t")
      case True
      then have "status s' = Running" using run t(1) by simp
      with eff have "chunks s' = chunks (ths ! t) @ [unat ctr]" by (auto split: if_splits)
      then show ?thesis using True t cnt len by simp
    next
      case False
      then show ?thesis using run u cnt by simp
    qed
  qed
  then show ?thesis using len d' by (simp add: phase_inv_def)
qed

lemma phase_inv_init:
  assumes "\<forall>s\<in>set ths. chunks s = [] \<and> status s = Running" "length ths = W"
  shows "phase_inv C L W [] 0 ths"
proof -
  have "issued ths = []" using assms(1) by (simp add: issued_def)
  moreover have "finished ths = 0" using assms(1) by (simp add: finished_def)
  ultimately show ?thesis using assms by (simp add: phase_inv_def distributor_inv_def)
qed

lemma process_exited_None:
  "process_exited ths = None \<longleftrightarrow> (\<forall>s\<in>set ths. \<forall>c. status s \<noteq> Exited c)"
  by (induction ths) (auto split: status.splits)

lemma chunks_le_issued:
  "t < length ths \<Longrightarrow> length (chunks (ths ! t)) \<le> length (issued ths)"
  by (simp add: issued_def concat_map_nth_split [of t ths chunks])

lemma phase_inv_all_finished:
  assumes inv: "phase_inv C L W sched ctr ths"
    and alive: "process_exited ths = None"
    and fair: "fair W (L div C) sched"
  shows "list_all (\<lambda>s. status s = Finished) ths"
proof -
  from inv have len: "length ths = W" and d: "distributor_inv C L ctr ths"
    and cnt: "\<forall>u<W. status (ths ! u) = Running \<longrightarrow> count_list sched u = length (chunks (ths ! u))"
    by (simp_all add: phase_inv_def)
  have "status (ths ! t) = Finished" if t: "t < W" for t
  proof (cases "status (ths ! t)")
    case Running
    then have "count_list sched t = length (chunks (ths ! t))" using cnt t by simp
    also have "\<dots> \<le> length (issued ths)" by (rule chunks_le_issued) (simp add: t len)
    also have "\<dots> \<le> L div C" using d by (simp add: distributor_inv_def)
    finally have "count_list sched t \<le> L div C" .
    moreover have "L div C < count_list sched t" using fair t by (simp add: fair_def)
    ultimately show ?thesis by simp
  next
    case Finished
    then show ?thesis .
  next
    case (Exited c)
    then show ?thesis using alive t len by (auto simp: process_exited_None)
  qed
  then show ?thesis using len by (simp add: list_all_length)
qed

lemma multiples_partition:
  assumes C: "0 < C" "C dvd L"
    and cs: "set cs = (\<lambda>k. C * k) ` {..<L div C}" "length cs = L div C"
  shows "partitions C L cs"
proof -
  have L: "C * (L div C) = L" using C(2) by simp
  have inj: "inj_on (\<lambda>k. C * k) {..<L div C}" using C(1) by (simp add: inj_on_def)
  have "card (set cs) = length cs" using cs inj by (simp add: card_image)
  then have dist: "distinct cs" by (rule card_distinct)
  have disj: "chunk_range C (cs ! i) \<inter> chunk_range C (cs ! j) = {}"
    if "i < length cs" "j < length cs" "i \<noteq> j" for i j
  proof -
    have "cs ! i \<in> (\<lambda>k. C * k) ` {..<L div C}" using that(1) cs(1) nth_mem by blast
    then obtain k where k: "cs ! i = C * k" by blast
    have "cs ! j \<in> (\<lambda>k. C * k) ` {..<L div C}" using that(2) cs(1) nth_mem by blast
    then obtain k' where k': "cs ! j = C * k'" by blast
    have "cs ! i \<noteq> cs ! j" using dist that by (simp add: nth_eq_iff_index_eq)
    then have "k \<noteq> k'" using k k' by auto
    then consider "k < k'" | "k' < k" by linarith
    then show ?thesis
    proof cases
      case 1
      then have "C * k + C \<le> C * k'" by (rule mult_succ_le)
      then show ?thesis by (auto simp: chunk_range_def k k')
    next
      case 2
      then have "C * k' + C \<le> C * k" by (rule mult_succ_le)
      then show ?thesis by (auto simp: chunk_range_def k k')
    qed
  qed
  have cover: "(\<Union>c\<in>set cs. chunk_range C c) = {0 ..< L}"
  proof (rule set_eqI, rule iffI)
    fix x assume "x \<in> (\<Union>c\<in>set cs. chunk_range C c)"
    then obtain c where c: "c \<in> set cs" "x \<in> chunk_range C c" by blast
    then obtain k where k: "k < L div C" "c = C * k" using cs(1) by auto
    have "C * k + C \<le> C * (L div C)" using k(1) by (rule mult_succ_le)
    then show "x \<in> {0 ..< L}" using c(2) k(2) L by (simp add: chunk_range_def)
  next
    fix x assume "x \<in> {0 ..< L}"
    then have x: "x < (L div C) * C" using L by (simp add: mult.commute)
    then have "x div C < L div C" using C(1) by (simp add: less_mult_imp_div_less)
    then have "C * (x div C) \<in> set cs" unfolding cs(1) by blast
    moreover have "C * (x div C) \<le> x" by simp
    moreover have "x < C * (x div C) + C"
      using C(1) dividend_less_times_div [of C x] by (simp add: mult.commute add.commute)
    ultimately have "C * (x div C) \<in> set cs \<and> x \<in> chunk_range C (C * (x div C))"
      by (simp add: chunk_range_def)
    then show "x \<in> (\<Union>c\<in>set cs. chunk_range C c)" by blast
  qed
  show ?thesis using disj cover by (simp add: partitions_def)
qed

lemma phase_inv_partitions:
  assumes inv: "phase_inv C L W p ctr ths"
    and fin: "list_all (\<lambda>s. status s = Finished) ths"
    and W: "1 \<le> W" and C: "0 < C" "C dvd L"
  shows "partitions C L (issued ths)"
proof -
  from inv have len: "length ths = W" and d: "distributor_inv C L ctr ths"
    by (simp_all add: phase_inv_def)
  have "filter (\<lambda>s. status s = Finished) ths = ths"
    using fin by (simp add: list_all_iff)
  then have "finished ths = W" using len by (simp add: finished_def)
  then have "length (issued ths) = L div C" using d W by (simp add: distributor_inv_def)
  moreover have "set (issued ths) = (\<lambda>k. C * k) ` {..<length (issued ths)}"
    using d by (simp add: distributor_inv_def)
  ultimately show ?thesis using multiples_partition [OF C] by simp
qed

subsection \<open>The steps of the two thread functions\<close>

lemma setup_chunk_fields:
  "chunks (setup_chunk K idx stop s) = chunks s \<and> status (setup_chunk K idx stop s) = status s"
proof (induction K idx stop s rule: setup_chunk.induct)
  case (1 K idx stop s)
  then show ?case
    by (subst (1 2) setup_chunk.simps) (simp add: setup_item_def)
qed

lemma unat_of_nat_u64: "n < 2 ^ 64 \<Longrightarrow> unat (of_nat n :: u64) = n"
  by (simp add: unat_of_nat)

lemma thread_setup_store_step_alt:
  assumes L: "kInitCount K * 8 < 2 ^ 64"
  shows "thread_setup_store_step K ctr s =
     (if unat ctr < kInitCount K * 8
      then (ctr + of_nat (kChunkSize K),
            setup_chunk K (unat ctr) (unat ctr + kChunkSize K) (s\<lparr>chunks := chunks s @ [unat ctr]\<rparr>))
      else (ctr + of_nat (kChunkSize K),
            s\<lparr>calls := calls s @ [faster_complete_pending True, faster_stop_session],
              status := Finished\<rparr>))"
proof -
  have "unat (of_nat (kInitCount K * 8) :: u64) = kInitCount K * 8"
    using L by (rule unat_of_nat_u64)
  then have test: "(ctr < of_nat (kInitCount K * 8)) = (unat ctr < kInitCount K * 8)"
    by (simp only: word_less_nat_alt)
  show ?thesis
    unfolding thread_setup_store_step_def fetch_add_def prod.case test by (rule refl)
qed

lemma thread_setup_store_step_effect:
  assumes L: "kInitCount K * 8 < 2 ^ 64"
    and step: "thread_setup_store_step K ctr s = (ctr', s')"
  shows "ctr' = ctr + of_nat (kChunkSize K)"
    and "if unat ctr < kInitCount K * 8
         then chunks s' = chunks s @ [unat ctr] \<and> status s' = status s
         else chunks s' = chunks s \<and> status s' = Finished"
  using step unfolding thread_setup_store_step_alt [OF L]
  by (auto simp: setup_chunk_fields split: if_splits)

lemma run_item_fields:
  "chunks (run_item K FN rmw idx w) = chunks w \<and>
   (status (run_item K FN rmw idx w) = status w \<or> status (run_item K FN rmw idx w) = Exited 1)"
  by (auto simp: run_item_def Let_def split: prod.splits Op.splits)

lemma run_chunk_fields:
  "chunks (run_chunk K FN rmw idx stop w) = chunks w \<and>
   (status (run_chunk K FN rmw idx stop w) = status w \<or>
    status (run_chunk K FN rmw idx stop w) = Exited 1)"
proof (induction K FN rmw idx stop w rule: run_chunk.induct)
  case (1 K FN rmw idx stop w)
  show ?case
  proof (cases "idx < stop \<and> status w = Running")
    case True
    then have eq: "run_chunk K FN rmw idx stop w =
                   run_chunk K FN rmw (idx + 8) stop (run_item K FN rmw idx w)"
      by (subst run_chunk.simps) simp
    show ?thesis
      unfolding eq using "1.IH" [OF True] run_item_fields [of K FN rmw idx w] by auto
  next
    case False
    then have "run_chunk K FN rmw idx stop w = w" by (subst run_chunk.simps) auto
    then show ?thesis by simp
  qed
qed

lemma thread_run_benchmark_step_alt:
  assumes L: "kTxnCount K * 8 < 2 ^ 64"
  shows "thread_run_benchmark_step K FN E t sh w =
     (if unat (next_idx sh) < kTxnCount K * 8
      then (sh\<lparr>next_idx := next_idx sh + of_nat (kChunkSize K)\<rparr>,
            run_chunk K FN (rmw_status E t) (unat (next_idx sh))
              (unat (next_idx sh) + kChunkSize K)
              (w\<lparr>chunks := chunks w @ [unat (next_idx sh)]\<rparr>))
      else (sh\<lparr>next_idx := next_idx sh + of_nat (kChunkSize K),
                threads_waiting := threads_waiting sh - 1,
                total_duration := total_duration sh + duration E t,
                total_reads_done := total_reads_done sh + reads_done w,
                total_writes_done := total_writes_done sh + writes_done w\<rparr>,
            w\<lparr>calls := calls w @ [faster_complete_pending True, faster_stop_session],
              status := Finished\<rparr>))"
proof -
  have "kTxnCount K < 2 ^ 64" using L by simp
  then have "unat (of_nat (kTxnCount K) :: u64) = kTxnCount K" by (rule unat_of_nat_u64)
  then have "(of_nat (kTxnCount K) \<le> next_idx sh div 8) = (kTxnCount K \<le> unat (next_idx sh) div 8)"
    by (simp add: word_le_nat_alt unat_div)
  also have "\<dots> = (\<not> unat (next_idx sh) < kTxnCount K * 8)" by auto
  finally have test: "(of_nat (kTxnCount K) \<le> next_idx sh div 8) =
                      (\<not> unat (next_idx sh) < kTxnCount K * 8)" .
  show ?thesis
    unfolding thread_run_benchmark_step_def fetch_add_def prod.case test by simp
qed

lemma thread_run_benchmark_step_effect:
  assumes L: "kTxnCount K * 8 < 2 ^ 64"
    and step: "thread_run_benchmark_step K FN E t sh w = (sh', w')"
    and run: "status w = Running"
  shows "next_idx sh' = next_idx sh + of_nat (kChunkSize K)"
    and "if unat (next_idx sh) < kTxnCount K * 8
         then chunks w' = chunks w @ [unat (next_idx sh)] \<and> status w' \<noteq> Finished
         else chunks w' = chunks w \<and> status w' = Finished"
proof -
  let ?w1 = "w\<lparr>chunks := chunks w @ [unat (next_idx sh)]\<rparr>"
  let ?r = "run_chunk K FN (rmw_status E t) (unat (next_idx sh))
              (unat (next_idx sh) + kChunkSize K) ?w1"
  have r: "chunks ?r = chunks w @ [unat (next_idx sh)]" "status ?r \<noteq> Finished"
    using run_chunk_fields [of K FN "rmw_status E t" "unat (next_idx sh)"
            "unat (next_idx sh) + kChunkSize K" ?w1] run
    by auto
  show "next_idx sh' = next_idx sh + of_nat (kChunkSize K)"
    using step unfolding thread_run_benchmark_step_alt [OF L] by (auto split: if_splits)
  show "if unat (next_idx sh) < kTxnCount K * 8
         then chunks w' = chunks w @ [unat (next_idx sh)] \<and> status w' \<noteq> Finished
         else chunks w' = chunks w \<and> status w' = Finished"
    using step r unfolding thread_run_benchmark_step_alt [OF L] by (auto split: if_splits)
qed

subsection \<open>The population phase\<close>

lemma no_exit_update:
  "process_exited ths = None \<Longrightarrow> (\<forall>c. status s' \<noteq> Exited c) \<Longrightarrow>
   process_exited (ths[t := s']) = None"
  unfolding process_exited_None using set_update_subset_insert [of ths t s'] by blast

lemma setup_store_inv:
  assumes C: "0 < kChunkSize K" "kChunkSize K dvd kInitCount K * 8"
             "kInitCount K * 8 + kChunkSize K * W < 2 ^ 64"
    and res: "run_threads (\<lambda>thread_idx. thread_setup_store_step K) sched 0
                (replicate W thread_setup_store_start) = (ctr, ths)"
  shows "phase_inv (kChunkSize K) (kInitCount K * 8) W sched ctr ths \<and> process_exited ths = None"
proof -
  let ?C = "kChunkSize K" and ?L = "kInitCount K * 8"
  have L: "?L < 2 ^ 64" using C(3) by simp
  have init: "setup_inv K W [] 0 (replicate W thread_setup_store_start)"
    by (simp add: setup_inv_def phase_inv_init thread_setup_store_start_def process_exited_None)
  have step: "setup_inv K W (p @ [t]) g' (ths[t := s'])"
    if inv: "setup_inv K W p g ths" and t: "t < length ths" "status (ths ! t) = Running"
      and st: "thread_setup_store_step K g (ths ! t) = (g', s')" for p t g ths g' s'
  proof -
    note eff = thread_setup_store_step_effect [OF L st]
    have e: "if unat g < ?L
              then chunks s' = chunks (ths ! t) @ [unat g] \<and> status s' \<noteq> Finished
              else chunks s' = chunks (ths ! t) \<and> status s' = Finished"
      using eff(2) t(2) by (auto split: if_splits)
    have pi: "phase_inv ?C ?L W p g ths" and alive: "process_exited ths = None"
      using inv by (simp_all add: setup_inv_def)
    have "phase_inv ?C ?L W (p @ [t]) (g + of_nat ?C) (ths[t := s'])"
      using pi t C e by (rule phase_inv_step)
    moreover have "\<forall>c. status s' \<noteq> Exited c" using eff(2) t(2) by (auto split: if_splits)
    then have "process_exited (ths[t := s']) = None" using alive by (simp add: no_exit_update)
    ultimately show ?thesis using eff(1) by (simp add: setup_inv_def)
  qed
  have skip: "setup_inv K W (p @ [t]) g ths"
    if "setup_inv K W p g ths" "\<not> (t < length ths \<and> status (ths ! t) = Running)" for p t g ths
    using that phase_inv_skip unfolding setup_inv_def by blast
  have "\<exists>q. setup_inv K W q ctr ths \<and> (process_exited ths = None \<longrightarrow> q = [] @ sched)"
  proof (rule run_threads_rule [where I = "setup_inv K W" and p = "[]", OF init _ _ res])
    fix p t g ths g' s'
    assume "setup_inv K W p g ths" "t < length ths" "status (ths ! t) = Running"
      "thread_setup_store_step K g (ths ! t) = (g', s')"
    then show "setup_inv K W (p @ [t]) g' (ths[t := s'])" by (rule step)
  next
    fix p t g ths
    assume "setup_inv K W p g (ths :: session list)" "\<not> (t < length ths \<and> status (ths ! t) = Running)"
    then show "setup_inv K W (p @ [t]) g ths" by (rule skip)
  qed
  then show ?thesis by (auto simp: setup_inv_def)
qed

lemma setup_store_Return:
  "setup_store K W sched = Return ths \<longleftrightarrow>
     (\<exists>ctr. run_threads (\<lambda>thread_idx. thread_setup_store_step K) sched 0
              (replicate W thread_setup_store_start) = (ctr, ths) \<and>
            list_all (\<lambda>s. status s = Finished) ths)"
  by (auto simp: setup_store_def split: prod.splits if_splits)

lemma setup_store_partitions:
  assumes C: "0 < kChunkSize K" "kChunkSize K dvd kInitCount K * 8"
             "kInitCount K * 8 + kChunkSize K * W < 2 ^ 64"
    and W: "1 \<le> W"
    and res: "setup_store K W sched = Return ths"
  shows "partitions (kChunkSize K) (kInitCount K * 8) (issued ths)"
proof -
  obtain ctr where r: "run_threads (\<lambda>thread_idx. thread_setup_store_step K) sched 0
              (replicate W thread_setup_store_start) = (ctr, ths)"
    and fin: "list_all (\<lambda>s. status s = Finished) ths"
    using res by (auto simp: setup_store_Return)
  from setup_store_inv [OF C r] have "phase_inv (kChunkSize K) (kInitCount K * 8) W sched ctr ths"
    by simp
  then show ?thesis using fin W C(1,2) by (rule phase_inv_partitions)
qed

lemma setup_store_fair:
  assumes C: "0 < kChunkSize K" "kChunkSize K dvd kInitCount K * 8"
             "kInitCount K * 8 + kChunkSize K * W < 2 ^ 64"
    and fair: "fair W (kInitCount K * 8 div kChunkSize K) sched"
  shows "\<exists>ths. setup_store K W sched = Return ths \<and> length ths = W"
proof -
  obtain ctr ths where r: "run_threads (\<lambda>thread_idx. thread_setup_store_step K) sched 0
              (replicate W thread_setup_store_start) = (ctr, ths)"
    by (cases "run_threads (\<lambda>thread_idx. thread_setup_store_step K) sched 0
              (replicate W thread_setup_store_start)")
  from setup_store_inv [OF C r]
  have inv: "phase_inv (kChunkSize K) (kInitCount K * 8) W sched ctr ths"
    and alive: "process_exited ths = None" by simp_all
  have "list_all (\<lambda>s. status s = Finished) ths"
    using inv alive fair by (rule phase_inv_all_finished)
  moreover have "length ths = W" using inv by (simp add: phase_inv_def)
  ultimately show ?thesis using r by (simp add: setup_store_def)
qed

subsection \<open>Properties of single threads\<close>

lemma run_threads_list_all:
  assumes init: "list_all P ths"
    and step: "\<And>t g s g' s'. \<lbrakk>P s; status s = Running; step t g s = (g', s')\<rbrakk> \<Longrightarrow> P s'"
    and res: "run_threads step sched g ths = (g', ths')"
  shows "list_all P ths'"
  using init res
proof (induction sched arbitrary: g ths)
  case Nil
  then show ?case by simp
next
  case (Cons t sched)
  show ?case
  proof (cases "process_exited ths = None \<and> t < length ths \<and> status (ths ! t) = Running")
    case True
    obtain g1 s1 where s: "step t g (ths ! t) = (g1, s1)" by (cases "step t g (ths ! t)")
    have "P (ths ! t)" using Cons.prems(1) True by (simp add: list_all_length)
    then have "P s1" using True s by (auto intro: step)
    then have "list_all P (ths[t := s1])"
      using Cons.prems(1) set_update_subset_insert [of ths t s1]
      by (auto simp: list_all_iff)
    moreover have "run_threads step sched g1 (ths[t := s1]) = (g', ths')"
      using Cons.prems(2) True s by simp
    ultimately show ?thesis by (rule Cons.IH)
  next
    case False
    then have "run_threads step sched g ths = (g', ths') \<or> (g, ths) = (g', ths')"
      using Cons.prems(2) by (auto split: if_splits)
    then show ?thesis using Cons.IH [OF Cons.prems(1)] Cons.prems(1) by auto
  qed
qed

lemma run_threads_length:
  "run_threads step sched g ths = (g', ths') \<Longrightarrow> length ths' = length ths"
proof (induction sched arbitrary: g ths)
  case Nil
  then show ?case by simp
next
  case (Cons t sched)
  show ?case
  proof (cases "process_exited ths = None \<and> t < length ths \<and> status (ths ! t) = Running")
    case True
    obtain g1 s1 where s: "step t g (ths ! t) = (g1, s1)" by (cases "step t g (ths ! t)")
    have "run_threads step sched g1 (ths[t := s1]) = (g', ths')"
      using Cons.prems True s by simp
    then show ?thesis using Cons.IH by fastforce
  next
    case False
    then have "run_threads step sched g ths = (g', ths') \<or> (g, ths) = (g', ths')"
      using Cons.prems by (auto split: if_splits)
    then show ?thesis using Cons.IH by auto
  qed
qed

subsection \<open>The totals of the measurement phase\<close>

lemma sum_change_one:
  fixes f f' :: "nat \<Rightarrow> u64"
  assumes "t < n" "\<And>u. u < n \<Longrightarrow> u \<noteq> t \<Longrightarrow> f' u = f u"
  shows "(\<Sum>u<n. f' u) = (\<Sum>u<n. f u) - f t + f' t"
proof -
  have "(\<Sum>u<n. f' u) = f' t + sum f' ({..<n} - {t})"
    using assms(1) by (intro sum.remove) simp_all
  moreover have "(\<Sum>u<n. f u) = f t + sum f ({..<n} - {t})"
    using assms(1) by (intro sum.remove) simp_all
  moreover have "sum f' ({..<n} - {t}) = sum f ({..<n} - {t})"
    using assms(2) by (intro sum.cong) auto
  ultimately show ?thesis by simp
qed

lemma published_finish:
  assumes "t < length ws" "status (ws ! t) = Running" "status w' = Finished"
  shows "published f (ws[t := w']) = published f ws + f w'"
proof -
  have "published f (ws[t := w']) =
        (\<Sum>u<length ws. if status (ws ! u) = Finished then f (ws ! u) else 0)
          - (if status (ws ! t) = Finished then f (ws ! t) else 0)
          + (if status (ws[t := w'] ! t) = Finished then f (ws[t := w'] ! t) else 0)"
    unfolding published_def length_list_update
    by (rule sum_change_one) (use assms in \<open>simp_all add: nth_list_update\<close>)
  then show ?thesis using assms by (simp add: published_def)
qed

lemma published_continue:
  assumes "t < length ws" "status (ws ! t) = Running" "status w' \<noteq> Finished"
  shows "published f (ws[t := w']) = published f ws"
proof -
  have "published f (ws[t := w']) =
        (\<Sum>u<length ws. if status (ws ! u) = Finished then f (ws ! u) else 0)
          - (if status (ws ! t) = Finished then f (ws ! t) else 0)
          + (if status (ws[t := w'] ! t) = Finished then f (ws[t := w'] ! t) else 0)"
    unfolding published_def length_list_update
    by (rule sum_change_one) (use assms in \<open>simp_all add: nth_list_update\<close>)
  then show ?thesis using assms by (simp add: published_def)
qed

lemma published_duration_finish:
  assumes "t < length ws" "status (ws ! t) = Running" "status w' = Finished"
  shows "published_duration E (ws[t := w']) = published_duration E ws + duration E t"
proof -
  have "published_duration E (ws[t := w']) =
        (\<Sum>u<length ws. if status (ws ! u) = Finished then duration E u else 0)
          - (if status (ws ! t) = Finished then duration E t else 0)
          + (if status (ws[t := w'] ! t) = Finished then duration E t else 0)"
    unfolding published_duration_def length_list_update
    by (rule sum_change_one) (use assms in \<open>simp_all add: nth_list_update\<close>)
  then show ?thesis using assms by (simp add: published_duration_def)
qed

lemma published_duration_continue:
  assumes "t < length ws" "status (ws ! t) = Running" "status w' \<noteq> Finished"
  shows "published_duration E (ws[t := w']) = published_duration E ws"
proof -
  have "published_duration E (ws[t := w']) =
        (\<Sum>u<length ws. if status (ws ! u) = Finished then duration E u else 0)
          - (if status (ws ! t) = Finished then duration E t else 0)
          + (if status (ws[t := w'] ! t) = Finished then duration E t else 0)"
    unfolding published_duration_def length_list_update
    by (rule sum_change_one) (use assms in \<open>simp_all add: nth_list_update\<close>)
  then show ?thesis using assms by (simp add: published_duration_def)
qed

lemma thread_run_benchmark_step_totals:
  assumes step: "thread_run_benchmark_step K FN E t sh w = (sh', w')"
    and run: "status w = Running"
  shows "(status w' = Finished \<and> reads_done w' = reads_done w \<and> writes_done w' = writes_done w \<and>
          total_reads_done sh' = total_reads_done sh + reads_done w \<and>
          total_writes_done sh' = total_writes_done sh + writes_done w \<and>
          total_duration sh' = total_duration sh + duration E t) \<or>
         (status w' \<noteq> Finished \<and>
          total_reads_done sh' = total_reads_done sh \<and>
          total_writes_done sh' = total_writes_done sh \<and>
          total_duration sh' = total_duration sh)"
proof -
  let ?c = "next_idx sh"
  let ?r = "run_chunk K FN (rmw_status E t) (unat ?c) (unat ?c + kChunkSize K)
              (w\<lparr>chunks := chunks w @ [unat ?c]\<rparr>)"
  have r: "status ?r \<noteq> Finished"
    using run_chunk_fields [of K FN "rmw_status E t" "unat ?c" "unat ?c + kChunkSize K"
            "w\<lparr>chunks := chunks w @ [unat ?c]\<rparr>"] run by auto
  show ?thesis
    using step r unfolding thread_run_benchmark_step_def fetch_add_def prod.case
    by (auto split: if_splits)
qed

lemma totals_inv_run:
  assumes res: "run_threads (thread_run_benchmark_step K FN E) sched sh ws = (sh', ws')"
    and init: "totals_inv E sh ws"
  shows "totals_inv E sh' ws'"
proof -
  have "\<exists>q. totals_inv E sh' ws' \<and> (process_exited ws' = None \<longrightarrow> q = [] @ sched)"
  proof (rule run_threads_rule [where I = "\<lambda>p. totals_inv E" and p = "[]", OF init _ _ res])
    fix p t g ths g' s'
    assume inv: "totals_inv E g ths" and t: "t < length ths" "status (ths ! t) = Running"
      and st: "thread_run_benchmark_step K FN E t g (ths ! t) = (g', s')"
    from thread_run_benchmark_step_totals [OF st t(2)]
    show "totals_inv E g' (ths[t := s'])"
    proof
      assume a: "status s' = Finished \<and> reads_done s' = reads_done (ths ! t) \<and>
          writes_done s' = writes_done (ths ! t) \<and>
          total_reads_done g' = total_reads_done g + reads_done (ths ! t) \<and>
          total_writes_done g' = total_writes_done g + writes_done (ths ! t) \<and>
          total_duration g' = total_duration g + duration E t"
      then show ?thesis
        using inv t
        by (simp add: totals_inv_def published_finish published_duration_finish)
    next
      assume a: "status s' \<noteq> Finished \<and> total_reads_done g' = total_reads_done g \<and>
          total_writes_done g' = total_writes_done g \<and> total_duration g' = total_duration g"
      then show ?thesis
        using inv t
        by (simp add: totals_inv_def published_continue published_duration_continue)
    qed
  next
    fix p t g ths
    assume "totals_inv E g (ths :: worker list)"
    then show "totals_inv E g ths" .
  qed
  then show ?thesis by blast
qed

lemma published_all_finished:
  assumes "list_all (\<lambda>w. status w = Finished) ws"
  shows "published f ws = sum_list (map f ws)"
proof -
  have "published f ws = (\<Sum>t<length ws. f (ws ! t))"
    unfolding published_def using assms by (intro sum.cong) (simp_all add: list_all_length)
  also have "\<dots> = sum_list (map f ws)"
    by (simp add: sum_list_sum_nth atLeast0LessThan)
  finally show ?thesis .
qed

lemma published_duration_all_finished:
  assumes "list_all (\<lambda>w. status w = Finished) ws"
  shows "published_duration E ws = sum_list (map (duration E) [0..<length ws])"
proof -
  have "published_duration E ws = (\<Sum>t<length ws. duration E t)"
    unfolding published_duration_def using assms by (intro sum.cong) (simp_all add: list_all_length)
  also have "\<dots> = sum_list (map (duration E) [0..<length ws])"
    by (simp add: sum_list_sum_nth atLeast0LessThan)
  finally show ?thesis .
qed

lemma run_benchmark_alt:
  "run_benchmark K D FN E W =
     (case run_threads (thread_run_benchmark_step K FN E) (schedule E)
             (fst (bench_start E W)) (snd (bench_start E W)) of
        (sh, ws) \<Rightarrow>
          (case process_exited ws of
             Some c \<Rightarrow> Exit c
           | None \<Rightarrow>
               if list_all (\<lambda>w. status w = Finished) ws
               then Return (ops_per_second_per_thread D sh, ws)
               else Unfinished))"
  by (simp add: run_benchmark_def bench_start_def)

lemma bench_start_facts:
  "length (snd (bench_start E W)) = W"
  "\<forall>w\<in>set (snd (bench_start E W)). chunks w = [] \<and> status w = Running"
  "totals_inv E (fst (bench_start E W)) (snd (bench_start E W))"
  "next_idx (fst (bench_start E W)) = 0"
  by (auto simp: bench_start_def thread_run_benchmark_start_def totals_inv_def published_def
        published_duration_def)

lemma run_benchmark_Return:
  assumes "run_benchmark K D FN E W = Return (r, ws)"
  obtains sh where
    "run_threads (thread_run_benchmark_step K FN E) (schedule E)
       (fst (bench_start E W)) (snd (bench_start E W)) = (sh, ws)"
    "process_exited ws = None" "list_all (\<lambda>w. status w = Finished) ws"
    "r = ops_per_second_per_thread D sh" "length ws = W"
proof -
  obtain sh ws' where r: "run_threads (thread_run_benchmark_step K FN E) (schedule E)
       (fst (bench_start E W)) (snd (bench_start E W)) = (sh, ws')"
    by (cases "run_threads (thread_run_benchmark_step K FN E) (schedule E)
       (fst (bench_start E W)) (snd (bench_start E W))")
  have "process_exited ws' = None \<and> list_all (\<lambda>w. status w = Finished) ws' \<and>
        r = ops_per_second_per_thread D sh \<and> ws' = ws"
    using assms r by (auto simp: run_benchmark_alt split: option.splits if_splits)
  moreover have "length ws' = W" using run_threads_length [OF r] bench_start_facts(1) by simp
  ultimately show ?thesis using r that by auto
qed

lemma run_benchmark_throughput:
  assumes "run_benchmark K D FN E W = Return (r, ws)"
  shows "r = double_div D
           (double_add D (double_of D (sum_list (map reads_done ws)))
                         (double_of D (sum_list (map writes_done ws))))
           (double_div D (double_of D (sum_list (map (duration E) [0..<W])))
                         (double_of D kNanosPerSecond))"
proof -
  from assms obtain sh where
    run: "run_threads (thread_run_benchmark_step K FN E) (schedule E)
       (fst (bench_start E W)) (snd (bench_start E W)) = (sh, ws)"
    and fin: "list_all (\<lambda>w. status w = Finished) ws"
    and r: "r = ops_per_second_per_thread D sh" and len: "length ws = W"
    by (rule run_benchmark_Return)
  have "totals_inv E sh ws" using run bench_start_facts(3) by (rule totals_inv_run)
  then show ?thesis
    using fin len r
    by (simp add: totals_inv_def ops_per_second_per_thread_def published_all_finished
          published_duration_all_finished)
qed

subsection \<open>The measurement phase\<close>

lemma bench_phase_inv:
  assumes C: "0 < kChunkSize K" "kChunkSize K dvd kTxnCount K * 8"
             "kTxnCount K * 8 + kChunkSize K * W < 2 ^ 64"
    and res: "run_threads (thread_run_benchmark_step K FN E) sched
                (fst (bench_start E W)) (snd (bench_start E W)) = (sh, ws)"
  shows "\<exists>q. phase_inv (kChunkSize K) (kTxnCount K * 8) W q (next_idx sh) ws \<and>
             (process_exited ws = None \<longrightarrow> q = sched)"
proof -
  let ?C = "kChunkSize K" and ?L = "kTxnCount K * 8"
  let ?I = "\<lambda>p sh (ws :: worker list). phase_inv ?C ?L W p (next_idx sh) ws"
  have L: "?L < 2 ^ 64" using C(3) by simp
  have init: "?I [] (fst (bench_start E W)) (snd (bench_start E W))"
    using bench_start_facts [of E W] by (simp add: phase_inv_init)
  have "\<exists>q. ?I q sh ws \<and> (process_exited ws = None \<longrightarrow> q = [] @ sched)"
  proof (rule run_threads_rule [where I = ?I and p = "[]", OF init _ _ res])
    fix p t g ths g' s'
    assume inv: "phase_inv ?C ?L W p (next_idx g) (ths :: worker list)"
      and t: "t < length ths" "status (ths ! t) = Running"
      and st: "thread_run_benchmark_step K FN E t g (ths ! t) = (g', s')"
    note eff = thread_run_benchmark_step_effect [OF L st t(2)]
    have "phase_inv ?C ?L W (p @ [t]) (next_idx g + of_nat ?C) (ths[t := s'])"
      using inv t C eff(2) by (rule phase_inv_step)
    then show "phase_inv ?C ?L W (p @ [t]) (next_idx g') (ths[t := s'])"
      using eff(1) by simp
  next
    fix p t g ths
    assume "phase_inv ?C ?L W p (next_idx g) (ths :: worker list)"
      "\<not> (t < length ths \<and> status (ths ! t) = Running)"
    then show "phase_inv ?C ?L W (p @ [t]) (next_idx g) ths" by (rule phase_inv_skip)
  qed
  then show ?thesis by simp
qed

lemma run_benchmark_partitions:
  assumes C: "0 < kChunkSize K" "kChunkSize K dvd kTxnCount K * 8"
             "kTxnCount K * 8 + kChunkSize K * W < 2 ^ 64"
    and W: "1 \<le> W"
    and res: "run_benchmark K D FN E W = Return (r, ws)"
  shows "partitions (kChunkSize K) (kTxnCount K * 8) (issued ws)"
proof -
  from res obtain sh where
    run: "run_threads (thread_run_benchmark_step K FN E) (schedule E)
       (fst (bench_start E W)) (snd (bench_start E W)) = (sh, ws)"
    and fin: "list_all (\<lambda>w. status w = Finished) ws"
    by (rule run_benchmark_Return)
  from bench_phase_inv [OF C run] obtain q where
    "phase_inv (kChunkSize K) (kTxnCount K * 8) W q (next_idx sh) ws" by blast
  then show ?thesis using fin W C(1,2) by (rule phase_inv_partitions)
qed

lemma never_scan_mixers:
  "never_scan ycsb_a_50_50" "never_scan ycsb_rmw_100" "never_scan ycsb_upsert_100"
  "never_scan ycsb_read_100"
  by (auto simp: never_scan_def ycsb_a_50_50_def ycsb_rmw_100_def ycsb_upsert_100_def
        ycsb_read_100_def split: prod.splits)

lemma run_item_never_scan:
  "never_scan FN \<Longrightarrow> status (run_item K FN rmw idx w) = status w"
  unfolding never_scan_def run_item_def Let_def
  by (auto split: prod.splits Op.splits) (metis fst_conv)

lemma run_chunk_never_scan:
  "never_scan FN \<Longrightarrow> status (run_chunk K FN rmw idx stop w) = status w"
proof (induction K FN rmw idx stop w rule: run_chunk.induct)
  case (1 K FN rmw idx stop w)
  show ?case
  proof (cases "idx < stop \<and> status w = Running")
    case True
    then have eq: "run_chunk K FN rmw idx stop w =
                   run_chunk K FN rmw (idx + 8) stop (run_item K FN rmw idx w)"
      by (subst run_chunk.simps) simp
    show ?thesis
      unfolding eq using "1.IH" [OF True "1.prems"] run_item_never_scan [OF "1.prems"] by simp
  next
    case False
    then have "run_chunk K FN rmw idx stop w = w" by (subst run_chunk.simps) auto
    then show ?thesis by simp
  qed
qed

lemma thread_run_benchmark_step_never_scan:
  assumes "never_scan FN" "thread_run_benchmark_step K FN E t sh w = (sh', w')"
    "status w = Running"
  shows "\<forall>c. status w' \<noteq> Exited c"
  using assms(2,3) run_chunk_never_scan [OF assms(1)]
  unfolding thread_run_benchmark_step_def fetch_add_def prod.case
  by (auto split: if_splits)

lemma run_benchmark_no_exit:
  assumes ns: "never_scan FN"
    and res: "run_threads (thread_run_benchmark_step K FN E) sched
                (fst (bench_start E W)) (snd (bench_start E W)) = (sh, ws)"
  shows "process_exited ws = None"
proof -
  have "list_all (\<lambda>w. \<forall>c. status w \<noteq> Exited c) ws"
  proof (rule run_threads_list_all [OF _ _ res])
    show "list_all (\<lambda>w. \<forall>c. status w \<noteq> Exited c) (snd (bench_start E W))"
      using bench_start_facts(2) [of E W] by (simp add: list_all_iff)
  next
    fix t g s g' s'
    assume "status s = Running" "thread_run_benchmark_step K FN E t g s = (g', s')"
    then show "\<forall>c. status s' \<noteq> Exited c"
      using thread_run_benchmark_step_never_scan [OF ns] by blast
  qed
  then show ?thesis by (simp add: process_exited_None list_all_iff)
qed

lemma run_benchmark_fair:
  assumes C: "0 < kChunkSize K" "kChunkSize K dvd kTxnCount K * 8"
             "kTxnCount K * 8 + kChunkSize K * W < 2 ^ 64"
    and fair: "fair W (kTxnCount K * 8 div kChunkSize K) (schedule E)"
    and ns: "never_scan FN"
  shows "\<exists>r ws. run_benchmark K D FN E W = Return (r, ws) \<and> length ws = W"
proof -
  obtain sh ws where run: "run_threads (thread_run_benchmark_step K FN E) (schedule E)
       (fst (bench_start E W)) (snd (bench_start E W)) = (sh, ws)"
    by (cases "run_threads (thread_run_benchmark_step K FN E) (schedule E)
       (fst (bench_start E W)) (snd (bench_start E W))")
  have alive: "process_exited ws = None" using ns run by (rule run_benchmark_no_exit)
  from bench_phase_inv [OF C run] alive
  have inv: "phase_inv (kChunkSize K) (kTxnCount K * 8) W (schedule E) (next_idx sh) ws" by auto
  have "list_all (\<lambda>w. status w = Finished) ws"
    using inv alive fair by (rule phase_inv_all_finished)
  moreover have "length ws = W" using inv by (simp add: phase_inv_def)
  ultimately show ?thesis using run alive by (simp add: run_benchmark_alt)
qed

lemma process_exited_Some:
  "process_exited ths = Some c \<Longrightarrow> \<exists>s\<in>set ths. status s = Exited c"
  by (induction ths) (auto split: status.splits)

lemma thread_run_benchmark_step_exit_code:
  assumes "thread_run_benchmark_step K FN E t sh w = (sh', w')" "status w = Running"
  shows "\<forall>c. status w' = Exited c \<longrightarrow> c = 1"
proof -
  let ?c = "next_idx sh"
  let ?r = "run_chunk K FN (rmw_status E t) (unat ?c) (unat ?c + kChunkSize K)
              (w\<lparr>chunks := chunks w @ [unat ?c]\<rparr>)"
  have r: "status ?r = Running \<or> status ?r = Exited 1"
    using run_chunk_fields [of K FN "rmw_status E t" "unat ?c" "unat ?c + kChunkSize K"
            "w\<lparr>chunks := chunks w @ [unat ?c]\<rparr>"] assms(2) by auto
  show ?thesis
    using assms(1) r unfolding thread_run_benchmark_step_def fetch_add_def prod.case
    by (auto split: if_splits)
qed

lemma run_benchmark_exit_code:
  assumes "run_benchmark K D FN E W = Exit c"
  shows "c = 1"
proof -
  obtain sh ws where run: "run_threads (thread_run_benchmark_step K FN E) (schedule E)
       (fst (bench_start E W)) (snd (bench_start E W)) = (sh, ws)"
    by (cases "run_threads (thread_run_benchmark_step K FN E) (schedule E)
       (fst (bench_start E W)) (snd (bench_start E W))")
  have all: "list_all (\<lambda>w. \<forall>c. status w = Exited c \<longrightarrow> c = 1) ws"
  proof (rule run_threads_list_all [OF _ _ run])
    show "list_all (\<lambda>w. \<forall>c. status w = Exited c \<longrightarrow> c = 1) (snd (bench_start E W))"
      using bench_start_facts(2) [of E W] by (simp add: list_all_iff)
  next
    fix t g s g' s'
    assume "status s = Running" "thread_run_benchmark_step K FN E t g s = (g', s')"
    then show "\<forall>c. status s' = Exited c \<longrightarrow> c = 1"
      using thread_run_benchmark_step_exit_code by blast
  qed
  have "process_exited ws = Some c"
    using assms run by (auto simp: run_benchmark_alt split: option.splits if_splits)
  then obtain w where "w \<in> set ws" "status w = Exited c" using process_exited_Some by blast
  then show ?thesis using all by (auto simp: list_all_iff)
qed

lemma run_benchmark_not_Overrun: "run_benchmark K D FN E W \<noteq> Overrun"
  by (auto simp: run_benchmark_alt split: prod.splits option.splits)


subsection \<open>Traces\<close>

lemma data_ops_refresh_and_drain [simp]: "data_ops (refresh_and_drain K idx) = []"
  by (simp add: data_ops_def refresh_and_drain_def)

lemma data_ops_append [simp]: "data_ops (xs @ ys) = data_ops xs @ data_ops ys"
  by (simp add: data_ops_def)

lemma weave_snoc:
  "length ops = length its \<Longrightarrow>
   weave K (its @ [idx]) (ops @ [op]) = weave K its ops @ refresh_and_drain K idx @ [op]"
  by (induction ops its rule: list_induct2) simp_all

lemma paced_item:
  assumes p: "paced K its cs" and op: "item_key op = Some idx"
  shows "paced K (its @ [idx]) (cs @ refresh_and_drain K idx @ [op])"
proof -
  from p have cs: "cs = faster_start_session # weave K its (data_ops cs)"
    and keys: "map item_key (data_ops cs) = map Some its"
    by (simp_all add: paced_def)
  have len: "length (data_ops cs) = length its" using keys by (metis length_map)
  have "data_ops [op] = [op]" using op by (simp add: data_ops_def)
  then have d: "data_ops (cs @ refresh_and_drain K idx @ [op]) = data_ops cs @ [op]"
    by simp
  have "faster_start_session # weave K (its @ [idx]) (data_ops cs @ [op]) =
        (faster_start_session # weave K its (data_ops cs)) @ refresh_and_drain K idx @ [op]"
    using weave_snoc [OF len] by simp
  also have "\<dots> = cs @ refresh_and_drain K idx @ [op]" using cs by simp
  finally show ?thesis using d keys op by (simp add: paced_def)
qed

lemma paced_start: "paced K [] [faster_start_session]"
  by (simp add: paced_def data_ops_def)

lemma run_item_paced:
  assumes "paced K its (calls w)"
  shows "(\<exists>c. status (run_item K FN rmw idx w) = Exited c) \<or>
         (status (run_item K FN rmw idx w) = status w \<and>
          paced K (its @ [idx]) (calls (run_item K FN rmw idx w)))"
proof -
  obtain op g where fn: "FN (rng w) = (op, g)" by (cases "FN (rng w)")
  show ?thesis
    using fn paced_item [OF assms, of _ idx]
    by (cases op) (simp_all add: run_item_def Let_def)
qed

lemma run_chunk_paced:
  "paced K its (calls w) \<Longrightarrow> status w = Running \<Longrightarrow>
   (\<exists>c. status (run_chunk K FN rmw idx stop w) = Exited c) \<or>
   (status (run_chunk K FN rmw idx stop w) = Running \<and>
    paced K (its @ chunk_items idx stop) (calls (run_chunk K FN rmw idx stop w)))"
proof (induction K FN rmw idx stop w arbitrary: its rule: run_chunk.induct)
  case (1 K FN rmw idx stop w)
  show ?case
  proof (cases "idx < stop")
    case True
    then have eq: "run_chunk K FN rmw idx stop w =
                   run_chunk K FN rmw (idx + 8) stop (run_item K FN rmw idx w)"
      using "1.prems"(2) by (subst run_chunk.simps) simp
    have items: "chunk_items idx stop = idx # chunk_items (idx + 8) stop"
      using True by (subst chunk_items.simps) simp
    from run_item_paced [OF "1.prems"(1), of FN rmw idx]
    show ?thesis
    proof
      assume "\<exists>c. status (run_item K FN rmw idx w) = Exited c"
      then obtain c where c: "status (run_item K FN rmw idx w) = Exited c" by blast
      then have "run_chunk K FN rmw (idx + 8) stop (run_item K FN rmw idx w) =
                 run_item K FN rmw idx w"
        by (subst run_chunk.simps) simp
      then show ?thesis using c eq by simp
    next
      assume a: "status (run_item K FN rmw idx w) = status w \<and>
                 paced K (its @ [idx]) (calls (run_item K FN rmw idx w))"
      then have "(\<exists>c. status (run_chunk K FN rmw (idx + 8) stop (run_item K FN rmw idx w)) = Exited c) \<or>
         (status (run_chunk K FN rmw (idx + 8) stop (run_item K FN rmw idx w)) = Running \<and>
          paced K ((its @ [idx]) @ chunk_items (idx + 8) stop)
            (calls (run_chunk K FN rmw (idx + 8) stop (run_item K FN rmw idx w))))"
        using "1.prems"(2) True by (intro "1.IH") simp_all
      then show ?thesis unfolding eq items by simp
    qed
  next
    case False
    then have "run_chunk K FN rmw idx stop w = w" by (subst run_chunk.simps) auto
    moreover have "chunk_items idx stop = []" using False by (subst chunk_items.simps) simp
    ultimately show ?thesis using "1.prems" by simp
  qed
qed

lemma paced_finish:
  assumes "paced K its cs"
  shows "cs @ [faster_complete_pending True, faster_stop_session] =
           faster_start_session #
             weave K its (data_ops (cs @ [faster_complete_pending True, faster_stop_session])) @
             [faster_complete_pending True, faster_stop_session]"
    and "map item_key (data_ops (cs @ [faster_complete_pending True, faster_stop_session])) =
         map Some its"
proof -
  have d: "data_ops (cs @ [faster_complete_pending True, faster_stop_session]) = data_ops cs"
    by (simp add: data_ops_def)
  from assms have cs: "cs = faster_start_session # weave K its (data_ops cs)"
    and keys: "map item_key (data_ops cs) = map Some its"
    by (simp_all add: paced_def)
  show "map item_key (data_ops (cs @ [faster_complete_pending True, faster_stop_session])) =
         map Some its" using keys d by simp
  have "cs @ [faster_complete_pending True, faster_stop_session] =
        (faster_start_session # weave K its (data_ops cs)) @
          [faster_complete_pending True, faster_stop_session]"
    using cs by simp
  then show "cs @ [faster_complete_pending True, faster_stop_session] =
           faster_start_session #
             weave K its (data_ops (cs @ [faster_complete_pending True, faster_stop_session])) @
             [faster_complete_pending True, faster_stop_session]"
    unfolding d by simp
qed

lemma thread_run_benchmark_step_trace:
  assumes inv: "trace_inv K w" and run: "status w = Running"
    and step: "thread_run_benchmark_step K FN E t sh w = (sh', w')"
  shows "trace_inv K w'"
proof -
  let ?c = "unat (next_idx sh)"
  let ?w1 = "w\<lparr>chunks := chunks w @ [?c]\<rparr>"
  let ?r = "run_chunk K FN (rmw_status E t) ?c (?c + kChunkSize K) ?w1"
  from inv run have p: "paced K (worker_items K w) (calls w)" by (simp add: trace_inv_def)
  have items: "worker_items K ?r = worker_items K w @ chunk_items ?c (?c + kChunkSize K)"
    using run_chunk_fields [of K FN "rmw_status E t" ?c "?c + kChunkSize K" ?w1]
    by (simp add: worker_items_def)
  have "trace_inv K ?r"
    using run_chunk_paced [of K "worker_items K w" ?w1 FN "rmw_status E t" ?c "?c + kChunkSize K"]
      p run items
    by (auto simp: trace_inv_def)
  moreover have "trace_inv K (w\<lparr>calls := calls w @ [faster_complete_pending True, faster_stop_session],
                    status := Finished\<rparr>)"
    using paced_finish [OF p] by (simp add: trace_inv_def finished_paced_def worker_items_def)
  ultimately show ?thesis
    using step unfolding thread_run_benchmark_step_def fetch_add_def prod.case
    by (auto split: if_splits)
qed

lemma run_benchmark_trace:
  assumes "run_benchmark K D FN E W = Return (r, ws)"
  shows "list_all (finished_paced K) ws"
proof -
  from assms obtain sh where
    run: "run_threads (thread_run_benchmark_step K FN E) (schedule E)
       (fst (bench_start E W)) (snd (bench_start E W)) = (sh, ws)"
    and fin: "list_all (\<lambda>w. status w = Finished) ws"
    by (rule run_benchmark_Return)
  have "list_all (trace_inv K) ws"
  proof (rule run_threads_list_all [OF _ _ run])
    show "list_all (trace_inv K) (snd (bench_start E W))"
      by (simp add: bench_start_def list_all_iff trace_inv_def thread_run_benchmark_start_def
            worker_items_def paced_start)
  next
    fix t g s g' s'
    assume "trace_inv K (s :: worker)" "status s = Running"
      "thread_run_benchmark_step K FN E t g s = (g', s')"
    then show "trace_inv K s'" by (rule thread_run_benchmark_step_trace)
  qed
  then show ?thesis using fin by (auto simp: list_all_iff trace_inv_def)
qed

lemma weave_no_blocking_drain:
  "faster_complete_pending True \<notin> set ops \<Longrightarrow>
   faster_complete_pending True \<notin> set (weave K its ops)"
  by (induction K its ops rule: weave.induct) (auto simp: refresh_and_drain_def)

lemma weave_no_stop:
  "faster_stop_session \<notin> set ops \<Longrightarrow> faster_stop_session \<notin> set (weave K its ops)"
  by (induction K its ops rule: weave.induct) (auto simp: refresh_and_drain_def)

lemma finished_paced_once:
  assumes "finished_paced K s"
  shows "count_list (calls s) (faster_complete_pending True) = 1"
    and "count_list (calls s) faster_stop_session = 1"
proof -
  let ?body = "weave K (worker_items K s) (data_ops (calls s))"
  have c: "calls s = faster_start_session # ?body @ [faster_complete_pending True, faster_stop_session]"
    using assms by (simp add: finished_paced_def)
  have "faster_complete_pending True \<notin> set (data_ops (calls s))"
       "faster_stop_session \<notin> set (data_ops (calls s))"
    by (auto simp: data_ops_def)
  then have "faster_complete_pending True \<notin> set ?body" "faster_stop_session \<notin> set ?body"
    by (simp_all add: weave_no_blocking_drain weave_no_stop)
  then have z: "count_list ?body (faster_complete_pending True) = 0"
               "count_list ?body faster_stop_session = 0"
    by (simp_all add: count_list_0_iff)
  show "count_list (calls s) (faster_complete_pending True) = 1"
    by (subst c) (simp add: z)
  show "count_list (calls s) faster_stop_session = 1"
    by (subst c) (simp add: z)
qed

lemma refresh_cadence:
  "faster_refresh_session \<in> set (refresh_and_drain K idx) \<longleftrightarrow> idx mod kRefreshInterval K = 0"
  by (simp add: refresh_and_drain_def)

lemma drain_cadence:
  assumes "kCompletePendingInterval K mod kRefreshInterval K = 0"
  shows "faster_complete_pending False \<in> set (refresh_and_drain K idx) \<longleftrightarrow>
         idx mod kCompletePendingInterval K = 0"
proof -
  have "idx mod kRefreshInterval K = 0" if "idx mod kCompletePendingInterval K = 0"
  proof -
    have "kRefreshInterval K dvd kCompletePendingInterval K" using assms by (simp add: mod_eq_0_iff_dvd)
    moreover have "kCompletePendingInterval K dvd idx" using that by (simp add: mod_eq_0_iff_dvd)
    ultimately have "kRefreshInterval K dvd idx" by (rule dvd_trans)
    then show ?thesis by (simp add: mod_eq_0_iff_dvd)
  qed
  then show ?thesis by (auto simp: refresh_and_drain_def)
qed

subsection \<open>The loops of \<^verbatim>\<open>main\<close>\<close>


lemma benchmark_workload_not_Overrun: "benchmark_workload K D wl E n \<noteq> Overrun"
  by (simp add: benchmark_workload_def run_benchmark_not_Overrun)

lemma benchmark_workload_Exit: "benchmark_workload K D wl E n = Exit c \<Longrightarrow> c = 1"
  by (auto simp: benchmark_workload_def dest: run_benchmark_exit_code split: if_splits)





lemma static_asserts_dvd:
  assumes "static_asserts K"
  shows "kChunkSize K dvd kInitCount K * 8" "kChunkSize K dvd kTxnCount K * 8"
  using assms by (simp_all add: static_asserts_def dvd_eq_mod_eq_0)

lemma static_asserts_pos: "static_asserts K \<Longrightarrow> 0 < kChunkSize K"
  by (simp add: static_asserts_def)

lemma benchmark_workload_fair:
  assumes sa: "static_asserts K" and fits: "fits_u64 K n"
    and fair: "fair n (kTxnCount K * 8 div kChunkSize K) (schedule E)"
    and wl: "wl \<in> {0, 1, 2, 3}"
  shows "\<exists>r ws. benchmark_workload K D wl E n = Return (r, ws) \<and> length ws = n"
proof -
  have C: "0 < kChunkSize K" "kChunkSize K dvd kTxnCount K * 8"
          "kTxnCount K * 8 + kChunkSize K * n < 2 ^ 64"
    using sa fits by (simp_all add: fits_u64_def static_asserts_dvd static_asserts_pos)
  note rb = run_benchmark_fair [OF C fair]
  from wl consider "wl = 0" | "wl = 1" | "wl = 2" | "wl = 3" by auto
  then show ?thesis
  proof cases
    case 1
    then show ?thesis using rb [OF never_scan_mixers(1), of D] by (simp add: benchmark_workload_def)
  next
    case 2
    then show ?thesis using rb [OF never_scan_mixers(2), of D] by (simp add: benchmark_workload_def)
  next
    case 3
    then show ?thesis using rb [OF never_scan_mixers(3), of D] by (simp add: benchmark_workload_def)
  next
    case 4
    then show ?thesis using rb [OF never_scan_mixers(4), of D] by (simp add: benchmark_workload_def)
  qed
qed

lemma population_fair:
  assumes sa: "static_asserts K" and fits: "fits_u64 K n"
    and fair: "fair 48 (kInitCount K * 8 div kChunkSize K) sched"
  shows "\<exists>ths. setup_store K 48 sched = Return ths \<and> length ths = 48"
proof -
  have C: "0 < kChunkSize K" "kChunkSize K dvd kInitCount K * 8"
          "kInitCount K * 8 + kChunkSize K * 48 < 2 ^ 64"
    using sa fits by (simp_all add: fits_u64_def static_asserts_dvd static_asserts_pos)
  show ?thesis using C fair by (rule setup_store_fair)
qed

lemma trial_success:
  assumes sa: "static_asserts K" and fits: "fits_u64 K (num_threads args)"
    and fair: "env_fair K (num_threads args) E"
    and wl: "workload args \<in> {0, 1, 2, 3}"
  shows "snd (trial K D args E st) = Return () \<and>
         map phase_threads (phases (fst (trial K D args E st))) =
           map phase_threads (phases st) @ [48, num_threads args]"
proof -
  let ?n = "trials_done st"
  have f1: "fair 48 (kInitCount K * 8 div kChunkSize K) (population_schedule E ?n)"
    and f2: "fair (num_threads args) (kTxnCount K * 8 div kChunkSize K) (schedule (benchmark_env E ?n))"
    using fair by (simp_all add: env_fair_def)
  obtain ths where p: "setup_store K 48 (population_schedule E ?n) = Return ths" "length ths = 48"
    using population_fair [OF sa fits f1] by blast
  obtain r ws where b: "benchmark_workload K D (workload args) (benchmark_env E ?n) (num_threads args)
                          = Return (r, ws)" "length ws = num_threads args"
    using benchmark_workload_fair [OF sa fits f2 wl, of D] by blast
  show ?thesis using p b by (simp add: trial_def Let_def phase_threads_def)
qed

lemma rounds_0: "rounds 0 xs = []"
  and rounds_Suc: "rounds (Suc n) xs = xs @ rounds n xs"
  and rounds_add: "rounds (m + n) xs = rounds m xs @ rounds n xs"
  by (simp_all add: rounds_def replicate_add)

lemma trials_success:
  assumes sa: "static_asserts K" and fits: "fits_u64 K (num_threads args)"
    and fair: "env_fair K (num_threads args) E"
    and wl: "workload args \<in> {0, 1, 2, 3}"
  shows "snd (trials K D args E js st) = Return () \<and>
         map phase_threads (phases (fst (trials K D args E js st))) =
           map phase_threads (phases st) @ rounds (length js) [48, num_threads args]"
proof (induction js arbitrary: st)
  case Nil
  then show ?case by (simp add: rounds_0)
next
  case (Cons j js)
  define st' where "st' = fst (trial K D args E st)"
  have t: "trial K D args E st = (st', Return ())"
    and ph: "map phase_threads (phases st') = map phase_threads (phases st) @ [48, num_threads args]"
    using trial_success [OF sa fits fair wl, of D st] by (simp_all add: st'_def prod_eq_iff)
  have "trials K D args E (j # js) st = trials K D args E js st'" using t by simp
  then show ?case using ph Cons.IH [of st'] by (simp add: rounds_Suc)
qed

lemma configurations_success:
  assumes sa: "static_asserts K" and fits: "fits_u64 K (num_threads args)"
    and fair: "env_fair K (num_threads args) E"
    and wl: "workload args \<in> {0, 1, 2, 3}"
  shows "snd (configurations K D args E cs st) = Return () \<and>
         map phase_threads (phases (fst (configurations K D args E cs st))) =
           map phase_threads (phases st) @ rounds (3 * length cs) [48, num_threads args]"
proof (induction cs arbitrary: st)
  case Nil
  then show ?case by (simp add: rounds_0)
next
  case (Cons c cs)
  let ?st0 = "st\<lparr>results := (results st)(num_threads args \<mapsto> [])\<rparr>"
  let ?js = "[0, 1, 2] :: nat list"
  define st' where "st' = fst (trials K D args E ?js ?st0)"
  have "snd (trials K D args E ?js ?st0) = Return () \<and>
         map phase_threads (phases (fst (trials K D args E ?js ?st0))) =
           map phase_threads (phases ?st0) @ rounds (length ?js) [48, num_threads args]"
    by (rule trials_success [OF sa fits fair wl])
  moreover have "length ?js = 3" by simp
  ultimately have "snd (trials K D args E ?js ?st0) = Return () \<and>
         map phase_threads (phases (fst (trials K D args E ?js ?st0))) =
           map phase_threads (phases ?st0) @ rounds 3 [48, num_threads args]"
    by (simp only:)
  then have t: "trials K D args E ?js ?st0 = (st', Return ())"
    and ph: "map phase_threads (phases st') =
             map phase_threads (phases st) @ rounds 3 [48, num_threads args]"
    by (simp_all add: st'_def prod_eq_iff del: trials.simps)
  have "configurations K D args E (c # cs) st = configurations K D args E cs st'"
    using t by (simp del: trials.simps)
  moreover have "rounds (3 * length (c # cs)) [48, num_threads args] =
        rounds 3 [48, num_threads args] @ rounds (3 * length cs) [48, num_threads args]"
    by (simp add: rounds_add [symmetric])
  ultimately show ?case using ph Cons.IH [of st'] by simp
qed

lemma main_success:
  assumes argc: "argc args = 5"
    and files: "length (load_file args) = 8 * kInitCount K" "length (run_file args) = 8 * kTxnCount K"
    and sa: "static_asserts K" and fits: "fits_u64 K (num_threads args)"
    and fair: "env_fair K (num_threads args) E"
    and wl: "workload args \<in> {0, 1, 2, 3}"
  shows "snd (main K D args E) = Return 0"
    and "map phase_threads (phases (fst (main K D args E))) =
           rounds (if num_threads args = 0 then 21 else 3) [48, num_threads args]"
proof -
  let ?st0 = "\<lparr>results = Map.empty, phases = [], trials_done = 0\<rparr> :: 'a main_state"
  let ?cs = "if num_threads args = 0 then [1, 2, 4, 8, 16, 32, 48] else [num_threads args]"
  have load: "load_files K (load_file args) (run_file args) = Return (load_file args, run_file args)"
    using files by (simp add: load_files_def load_keys_eq)
  define st' where "st' = fst (configurations K D args E ?cs ?st0)"
  have "snd (configurations K D args E ?cs ?st0) = Return () \<and>
         map phase_threads (phases (fst (configurations K D args E ?cs ?st0))) =
           map phase_threads (phases ?st0) @ rounds (3 * length ?cs) [48, num_threads args]"
    by (rule configurations_success [OF sa fits fair wl])
  then have c: "configurations K D args E ?cs ?st0 = (st', Return ())"
    and ph: "map phase_threads (phases st') = rounds (3 * length ?cs) [48, num_threads args]"
    by (simp_all add: st'_def prod_eq_iff del: configurations.simps)
  have m: "main K D args E = (st', Return 0)"
    unfolding main_def Let_def using argc load c
    by (simp add: kNumArgs_def del: configurations.simps)
  show "snd (main K D args E) = Return 0" using m by simp
  have "3 * length ?cs = (if num_threads args = 0 then 21 else 3)" by simp
  then show "map phase_threads (phases (fst (main K D args E))) =
           rounds (if num_threads args = 0 then 21 else 3) [48, num_threads args]"
    using m ph by simp
qed

lemma trials_first_exit:
  "snd (trial K D args E st) = Exit c \<Longrightarrow> snd (trials K D args E (j # js) st) = Exit c"
  by (cases "trial K D args E st"; cases "snd (trial K D args E st)") simp_all

lemma configurations_first_exit:
  "snd (trials K D args E [0, 1, 2] (st\<lparr>results := (results st)(num_threads args \<mapsto> [])\<rparr>)) = Exit c
   \<Longrightarrow> snd (configurations K D args E (n # cs) st) = Exit c"
  by (cases "trials K D args E [0, 1, 2] (st\<lparr>results := (results st)(num_threads args \<mapsto> [])\<rparr>)";
      cases "snd (trials K D args E [0, 1, 2] (st\<lparr>results := (results st)(num_threads args \<mapsto> [])\<rparr>))")
     (simp_all del: trials.simps)

lemma main_unknown_workload:
  assumes argc: "argc args = 5"
    and files: "length (load_file args) = 8 * kInitCount K" "length (run_file args) = 8 * kTxnCount K"
    and sa: "static_asserts K" and fits: "fits_u64 K (num_threads args)"
    and fair: "fair 48 (kInitCount K * 8 div kChunkSize K) (population_schedule E 0)"
    and wl: "workload args \<notin> {0, 1, 2, 3}"
  shows "snd (main K D args E) = Exit 1"
proof -
  let ?st0 = "\<lparr>results = Map.empty, phases = [], trials_done = 0\<rparr> :: 'a main_state"
  let ?st1 = "?st0\<lparr>results := (results ?st0)(num_threads args \<mapsto> [])\<rparr>"
  let ?cs = "if num_threads args = 0 then [1, 2, 4, 8, 16, 32, 48] else [num_threads args]"
  have load: "load_files K (load_file args) (run_file args) = Return (load_file args, run_file args)"
    using files by (simp add: load_files_def load_keys_eq)
  obtain ths where p: "setup_store K 48 (population_schedule E 0) = Return ths"
    using population_fair [OF sa fits fair] by blast
  have b: "benchmark_workload K D (workload args) (benchmark_env E 0) (num_threads args) = Exit 1"
    using wl by (simp add: benchmark_workload_def)
  have "snd (trial K D args E ?st1) = Exit 1"
    using p b by (simp add: trial_def Let_def)
  then have "snd (trials K D args E [0, 1, 2] ?st1) = Exit 1" by (rule trials_first_exit)
  then have c: "snd (configurations K D args E (n # cs) ?st0) = Exit 1" for n cs
    by (rule configurations_first_exit)
  obtain n cs where cs: "?cs = n # cs" by (cases ?cs) (auto split: if_splits)
  have "snd (configurations K D args E ?cs ?st0) = Exit 1" unfolding cs by (rule c)
  then show ?thesis
    unfolding main_def Let_def using argc load
    by (cases "configurations K D args E ?cs ?st0")
       (simp add: kNumArgs_def del: configurations.simps)
qed

lemma main_bad_argc: "argc args \<noteq> 5 \<Longrightarrow> snd (main K D args E) = Exit 0"
  by (simp add: main_def kNumArgs_def Let_def)

lemma main_load_mismatch:
  assumes "argc args = 5"
    and "length (load_file args) < 8 * kInitCount K \<or>
         (length (load_file args) = 8 * kInitCount K \<and> length (run_file args) < 8 * kTxnCount K)"
  shows "snd (main K D args E) = Exit 1"
proof -
  have "load_files K (load_file args) (run_file args) = Exit 1"
    using assms(2) by (auto simp: load_files_def load_keys_eq)
  then show ?thesis using assms(1) by (simp add: main_def kNumArgs_def Let_def)
qed

lemma main_load_overrun:
  assumes "argc args = 5"
    and "8 * kInitCount K < length (load_file args)"
  shows "snd (main K D args E) = Overrun"
proof -
  have "load_files K (load_file args) (run_file args) = Overrun"
    using assms(2) by (simp add: load_files_def load_keys_eq mult.commute)
  then show ?thesis using assms(1) by (simp add: main_def kNumArgs_def Let_def)
qed

subsection \<open>Round-robin schedules, single items, the callback\<close>

lemma count_list_upt: "count_list [0..<W] t = (if t < W then 1 else 0)"
  by (induction W) auto

lemma count_list_concat_replicate:
  "count_list (concat (replicate n xs)) t = n * count_list xs t"
  by (induction n) simp_all

lemma fair_round_robin: "m < n \<Longrightarrow> fair W m (round_robin W n)"
  by (simp add: fair_def round_robin_def count_list_concat_replicate count_list_upt)

lemma run_item_rmw:
  assumes "fst (FN (rng w)) = ReadModifyWrite"
  shows "writes_done (run_item K FN rmw idx w) =
           (if rmw idx = 0 then writes_done w + 1 else writes_done w)"
    and "reads_done (run_item K FN rmw idx w) = reads_done w"
    and "calls (run_item K FN rmw idx w) = calls w @ refresh_and_drain K idx @ [faster_rmw idx 8 0 1]"
    and "status (run_item K FN rmw idx w) = status w"
  using assms by (auto simp: run_item_def Let_def split: prod.splits)

lemma run_item_scan:
  assumes "fst (FN (rng w)) = Scan"
  shows "status (run_item K FN rmw idx w) = Exited 1"
    and "reads_done (run_item K FN rmw idx w) = reads_done w"
    and "writes_done (run_item K FN rmw idx w) = writes_done w"
  using assms by (auto simp: run_item_def Let_def split: prod.splits)

lemma run_item_rmw_lengths:
  "list_all rmw_lengths_ok (calls w) \<Longrightarrow> list_all rmw_lengths_ok (calls (run_item K FN rmw idx w))"
  by (auto simp: run_item_def Let_def refresh_and_drain_def split: prod.splits Op.splits)

lemma run_chunk_rmw_lengths:
  "list_all rmw_lengths_ok (calls w) \<Longrightarrow>
   list_all rmw_lengths_ok (calls (run_chunk K FN rmw idx stop w))"
proof (induction K FN rmw idx stop w rule: run_chunk.induct)
  case (1 K FN rmw idx stop w)
  show ?case
  proof (cases "idx < stop \<and> status w = Running")
    case True
    then have eq: "run_chunk K FN rmw idx stop w =
                   run_chunk K FN rmw (idx + 8) stop (run_item K FN rmw idx w)"
      by (subst run_chunk.simps) simp
    show ?thesis
      unfolding eq using "1.IH" [OF True] run_item_rmw_lengths [OF "1.prems"] by simp
  next
    case False
    then have "run_chunk K FN rmw idx stop w = w" by (subst run_chunk.simps) auto
    then show ?thesis using "1.prems" by simp
  qed
qed

lemma run_benchmark_rmw_lengths:
  assumes "run_benchmark K D FN E W = Return (r, ws)"
  shows "list_all (\<lambda>w. list_all rmw_lengths_ok (calls w)) ws"
proof -
  from assms obtain sh where
    run: "run_threads (thread_run_benchmark_step K FN E) (schedule E)
       (fst (bench_start E W)) (snd (bench_start E W)) = (sh, ws)"
    by (rule run_benchmark_Return)
  show ?thesis
  proof (rule run_threads_list_all [OF _ _ run])
    show "list_all (\<lambda>w. list_all rmw_lengths_ok (calls w)) (snd (bench_start E W))"
      by (simp add: bench_start_def list_all_iff thread_run_benchmark_start_def)
  next
    fix t g s g' s'
    assume a: "list_all rmw_lengths_ok (calls (s :: worker))"
      "thread_run_benchmark_step K FN E t g s = (g', s')"
    have "list_all rmw_lengths_ok (calls (run_chunk K FN (rmw_status E t) (unat (next_idx g))
            (unat (next_idx g) + kChunkSize K) (s\<lparr>chunks := chunks s @ [unat (next_idx g)]\<rparr>)))"
      using a(1) by (intro run_chunk_rmw_lengths) simp
    then show "list_all rmw_lengths_ok (calls s')"
      using a unfolding thread_run_benchmark_step_def fetch_add_def prod.case
      by (auto split: if_splits)
  qed
qed

lemma rmw_cb_asserts:
  "rmw_cb False current len modification modification_length dst val \<noteq> Inl AssertionFailed
     \<longleftrightarrow> len = 8 \<and> modification_length = 8"
  by (auto simp: rmw_cb_def split: option.splits)

lemma rmw_cb_first_byte_only:
  "rmw_cb ndebug current len (m # ms) modification_length dst val =
   rmw_cb ndebug current len [m] modification_length dst val"
  by (cases dst) (simp_all add: rmw_cb_def)

lemma setup_chunk_paced:
  "paced K its (calls s) \<Longrightarrow>
   paced K (its @ chunk_items idx stop) (calls (setup_chunk K idx stop s))"
proof (induction K idx stop s arbitrary: its rule: setup_chunk.induct)
  case (1 K idx stop s)
  show ?case
  proof (cases "idx < stop")
    case True
    have eq: "setup_chunk K idx stop s = setup_chunk K (idx + 8) stop (setup_item K idx s)"
      using True by (subst setup_chunk.simps) simp
    have items: "chunk_items idx stop = idx # chunk_items (idx + 8) stop"
      using True by (subst chunk_items.simps) simp
    have "paced K (its @ [idx]) (calls (setup_item K idx s))"
      using paced_item [OF "1.prems", of "faster_upsert idx 8 42 8" idx]
      by (simp add: setup_item_def)
    then have "paced K ((its @ [idx]) @ chunk_items (idx + 8) stop)
                 (calls (setup_chunk K (idx + 8) stop (setup_item K idx s)))"
      using True by (intro "1.IH") simp_all
    then show ?thesis unfolding eq items by simp
  next
    case False
    then have "setup_chunk K idx stop s = s" by (subst setup_chunk.simps) auto
    moreover have "chunk_items idx stop = []" using False by (subst chunk_items.simps) simp
    ultimately show ?thesis using "1.prems" by simp
  qed
qed

lemma thread_setup_store_step_trace:
  assumes inv: "trace_inv K s" and run: "status s = Running"
    and step: "thread_setup_store_step K ctr s = (ctr', s')"
  shows "trace_inv K s'"
proof -
  let ?c = "unat ctr"
  let ?s1 = "s\<lparr>chunks := chunks s @ [?c]\<rparr>"
  let ?r = "setup_chunk K ?c (?c + kChunkSize K) ?s1"
  from inv run have p: "paced K (worker_items K s) (calls s)" by (simp add: trace_inv_def)
  have f: "chunks ?r = chunks s @ [?c]" "status ?r = Running"
    using setup_chunk_fields [of K ?c "?c + kChunkSize K" ?s1] run by simp_all
  have "paced K (worker_items K s @ chunk_items ?c (?c + kChunkSize K)) (calls ?r)"
    using p by (intro setup_chunk_paced) simp
  then have "trace_inv K ?r" using f by (simp add: trace_inv_def worker_items_def)
  moreover have "trace_inv K (s\<lparr>calls := calls s @ [faster_complete_pending True, faster_stop_session],
                    status := Finished\<rparr>)"
    using paced_finish [OF p] by (simp add: trace_inv_def finished_paced_def worker_items_def)
  ultimately show ?thesis
    using step unfolding thread_setup_store_step_def fetch_add_def prod.case
    by (auto split: if_splits)
qed

lemma setup_store_trace:
  assumes "setup_store K W sched = Return ths"
  shows "list_all (finished_paced K) ths"
proof -
  obtain ctr where r: "run_threads (\<lambda>thread_idx. thread_setup_store_step K) sched 0
              (replicate W thread_setup_store_start) = (ctr, ths)"
    and fin: "list_all (\<lambda>s. status s = Finished) ths"
    using assms by (auto simp: setup_store_Return)
  have "list_all (trace_inv K) ths"
  proof (rule run_threads_list_all [OF _ _ r])
    show "list_all (trace_inv K) (replicate W thread_setup_store_start)"
      by (simp add: list_all_iff trace_inv_def thread_setup_store_start_def worker_items_def
            paced_start)
  next
    fix t g s g' s'
    assume "trace_inv K (s :: session)" "status s = Running"
      "thread_setup_store_step K g s = (g', s')"
    then show "trace_inv K s'" by (rule thread_setup_store_step_trace)
  qed
  then show ?thesis using fin by (auto simp: list_all_iff trace_inv_def)
qed

section \<open>The claims\<close>

subsection \<open>Inputs that satisfy the hypotheses\<close>

lemma faster_config_ok:
  "static_asserts faster_config"
  "kInitCount faster_config = 250000000" "kTxnCount faster_config = 1000000000"
  "kChunkSize faster_config = 25600"
  by (simp_all add: static_asserts_def faster_config_def)

lemma faster_config_fits: "W \<le> 48 \<Longrightarrow> fits_u64 faster_config W"
proof -
  assume "W \<le> 48"
  then have "25600 * W \<le> 25600 * 48" by simp
  then show ?thesis by (simp add: fits_u64_def faster_config_def)
qed

lemma small_config_ok:
  "static_asserts small_config" "fits_u64 small_config 2"
  "kInitCount small_config * 8 + kChunkSize small_config * 2 < 2 ^ 64"
  "kTxnCount small_config * 8 + kChunkSize small_config * 2 < 2 ^ 64"
  by (simp_all add: static_asserts_def fits_u64_def small_config_def)

lemma full_args_ok:
  "argc (full_args wl n) = 5" "workload (full_args wl n) = wl" "num_threads (full_args wl n) = n"
  "length (load_file (full_args wl n)) = 8 * kInitCount faster_config"
  "length (run_file (full_args wl n)) = 8 * kTxnCount faster_config"
  by (simp_all add: full_args_def faster_config_def)

lemma round_robin_env_fair: "env_fair faster_config W (round_robin_env W)"
  by (simp add: env_fair_def round_robin_env_def faster_config_def fair_round_robin)

lemma small_setup_store:
  "setup_store small_config 2 [0, 1, 0, 1] = Return
     [\<lparr>calls =
         [faster_start_session, faster_refresh_session, faster_complete_pending False,
          faster_upsert 0 8 42 8, faster_refresh_session, faster_upsert 8 8 42 8,
          faster_complete_pending True, faster_stop_session],
       chunks = [0], status = Finished\<rparr>,
      \<lparr>calls =
         [faster_start_session, faster_refresh_session, faster_complete_pending False,
          faster_upsert 16 8 42 8, faster_refresh_session, faster_upsert 24 8 42 8,
          faster_complete_pending True, faster_stop_session],
       chunks = [16], status = Finished\<rparr>]"
  by code_simp

lemma small_run_benchmark_eval:
  "(case run_benchmark small_config symbolic ycsb_rmw_100 small_env 2 of
      Return (r, ws) \<Rightarrow>
        r = DDiv (DAdd (DConst 0) (DConst 7)) (DDiv (DConst 2000) (DConst 1000000000)) \<and>
        map worker_view ws = small_rmw_views
    | _ \<Rightarrow> False)"
  unfolding small_rmw_views_def worker_view_def by code_simp

lemma small_run_benchmark:
  obtains r ws where
    "run_benchmark small_config symbolic ycsb_rmw_100 small_env 2 = Return (r, ws)"
    "r = DDiv (DAdd (DConst 0) (DConst 7)) (DDiv (DConst 2000) (DConst 1000000000))"
    "map worker_view ws = small_rmw_views"
  using small_run_benchmark_eval
  by (cases "run_benchmark small_config symbolic ycsb_rmw_100 small_env 2") auto

lemma small_run_benchmark_fields:
  assumes "map worker_view ws = small_rmw_views"
  shows "map calls ws = map fst small_rmw_views"
    and "map chunks ws = [[0, 32], [16, 48]]"
    and "map reads_done ws = [0, 0]" and "map writes_done ws = [3, 4]"
    and "length ws = 2"
proof -
  have "map (fst \<circ> worker_view) ws = map fst small_rmw_views"
       "map (fst \<circ> snd \<circ> worker_view) ws = map (fst \<circ> snd) small_rmw_views"
       "map (fst \<circ> snd \<circ> snd \<circ> snd \<circ> worker_view) ws = map (fst \<circ> snd \<circ> snd \<circ> snd) small_rmw_views"
       "map (snd \<circ> snd \<circ> snd \<circ> snd \<circ> worker_view) ws = map (snd \<circ> snd \<circ> snd \<circ> snd) small_rmw_views"
    using assms by (simp_all flip: map_map)
  then show "map calls ws = map fst small_rmw_views"
    and "map chunks ws = [[0, 32], [16, 48]]"
    and "map reads_done ws = [0, 0]" and "map writes_done ws = [3, 4]"
    by (simp_all add: worker_view_def comp_def small_rmw_views_def)
  show "length ws = 2" using assms by (metis length_map small_rmw_views_def length_Cons list.size(3) numeral_2_eq_2)
qed

subsection \<open>C1: the thread-count sweep\<close>

text \<open>
  C1 says that with thread-count argument 0 each entry \<open>N\<close> of the sweep is measured with
  \<open>N\<close> workers. The code builds the sweep and loops over it, but the loop body passes
  \<^verbatim>\<open>num_threads\<close>, which is 0, to \<^verbatim>\<open>run_benchmark\<close>: on key files of the expected
  sizes, with workload 0 and population threads that all run to exhaustion, \<^verbatim>\<open>main\<close>
  returns 0 after 21 trials, each of which populated the store with 48 threads and
  measured with no worker at all.
\<close>

theorem sweep_measures_with_no_workers:
  "snd (main faster_config D (full_args 0 0) (round_robin_env 0)) = Return 0 \<and>
   map phase_threads (phases (fst (main faster_config D (full_args 0 0) (round_robin_env 0)))) =
     rounds 21 [48, 0]"
proof -
  have wl: "workload (full_args 0 0) \<in> {0, 1, 2, 3}" by (simp add: full_args_ok)
  have fits: "fits_u64 faster_config (num_threads (full_args 0 0))"
    by (simp add: full_args_ok faster_config_fits)
  have fair: "env_fair faster_config (num_threads (full_args 0 0)) (round_robin_env 0)"
    by (simp add: full_args_ok round_robin_env_fair)
  show ?thesis
    using main_success [OF full_args_ok(1,4,5) faster_config_ok(1) fits fair wl, where D = D]
    by (simp add: full_args_ok)
qed

subsection \<open>C2: the chunks partition the corpus\<close>

text \<open>
  C2: for corpus lengths that are multiples of the chunk size (the
  \<^verbatim>\<open>static_assert\<close>s) and any number \<open>W \<ge> 1\<close> of workers, the chunks handed out by the
  shared counter during one phase, from its reset until every worker has seen it
  exhausted, partition \<open>[0, L)\<close>: no two overlap and their union is \<open>[0, L)\<close>. This holds
  for every interleaving of the workers, in the population phase (\<open>L = kInitCount * 8\<close>)
  and in the measurement phase (\<open>L = kTxnCount * 8\<close>). The counter is a 64-bit word; its
  last value \<open>L + W * kChunkSize\<close> is taken to fit, as it does for the constants of the
  source and any number of threads below \<open>7 * 10^14\<close>.
\<close>

theorem chunks_partition_corpus:
  assumes "static_asserts K" and "1 \<le> W"
    and "kInitCount K * 8 + kChunkSize K * W < 2 ^ 64"
    and "kTxnCount K * 8 + kChunkSize K * W < 2 ^ 64"
  shows "(setup_store K W sched = Return ths \<longrightarrow>
            partitions (kChunkSize K) (kInitCount K * 8) (issued ths)) \<and>
         (run_benchmark K D FN E W = Return (r, ws) \<longrightarrow>
            partitions (kChunkSize K) (kTxnCount K * 8) (issued ws))"
  using assms setup_store_partitions [of K W sched ths] run_benchmark_partitions [of K W D FN E r ws]
  by (simp add: static_asserts_dvd static_asserts_pos)

theorem chunks_partition_corpus_witness:
  "(\<exists>ths. setup_store small_config 2 [0, 1, 0, 1] = Return ths \<and> issued ths = [0, 16] \<and>
          partitions 16 32 (issued ths)) \<and>
   (\<exists>r ws. run_benchmark small_config symbolic ycsb_rmw_100 small_env 2 = Return (r, ws) \<and>
          issued ws = [0, 32, 16, 48] \<and> partitions 16 64 (issued ws)) \<and>
   (\<exists>ths. setup_store faster_config 48 (round_robin 48 78126) = Return ths \<and>
          partitions 25600 2000000000 (issued ths))"
proof (intro conjI)
  have W: "(1::nat) \<le> 2" "(1::nat) \<le> 48" by simp_all
  obtain ths where t: "setup_store small_config 2 [0, 1, 0, 1] = Return ths"
    and i: "issued ths = [0, 16]"
    using small_setup_store by (simp add: issued_def)
  have "partitions (kChunkSize small_config) (kInitCount small_config * 8) (issued ths)"
    by (rule chunks_partition_corpus [OF small_config_ok(1) W(1) small_config_ok(3,4),
            THEN conjunct1, THEN mp, OF t])
  then show "\<exists>ths. setup_store small_config 2 [0, 1, 0, 1] = Return ths \<and> issued ths = [0, 16] \<and>
          partitions 16 32 (issued ths)"
    using t i by (auto simp: small_config_def)
next
  have W: "(1::nat) \<le> 2" by simp
  obtain r ws where b: "run_benchmark small_config symbolic ycsb_rmw_100 small_env 2 = Return (r, ws)"
    and v: "map worker_view ws = small_rmw_views"
    by (rule small_run_benchmark)
  have i: "issued ws = [0, 32, 16, 48]"
    using small_run_benchmark_fields(2) [OF v] by (simp add: issued_def)
  have "partitions (kChunkSize small_config) (kTxnCount small_config * 8) (issued ws)"
    by (rule chunks_partition_corpus [OF small_config_ok(1) W small_config_ok(3,4),
            THEN conjunct2, THEN mp, OF b])
  then show "\<exists>r ws. run_benchmark small_config symbolic ycsb_rmw_100 small_env 2 = Return (r, ws) \<and>
          issued ws = [0, 32, 16, 48] \<and> partitions 16 64 (issued ws)"
    using b i by (auto simp: small_config_def)
next
  have W: "(1::nat) \<le> 48" by simp
  have C: "kInitCount faster_config * 8 + kChunkSize faster_config * 48 < 2 ^ 64"
          "kTxnCount faster_config * 8 + kChunkSize faster_config * 48 < 2 ^ 64"
    by (simp_all add: faster_config_ok)
  have "fair 48 (kInitCount faster_config * 8 div kChunkSize faster_config) (round_robin 48 78126)"
    by (simp add: faster_config_ok fair_round_robin)
  then obtain ths where t: "setup_store faster_config 48 (round_robin 48 78126) = Return ths"
    using setup_store_fair [of faster_config 48 "round_robin 48 78126"] C(1)
    by (auto simp: faster_config_ok static_asserts_pos static_asserts_dvd)
  have "partitions (kChunkSize faster_config) (kInitCount faster_config * 8) (issued ths)"
    by (rule chunks_partition_corpus [OF faster_config_ok(1) W C,
            THEN conjunct1, THEN mp, OF t])
  then show "\<exists>ths. setup_store faster_config 48 (round_robin 48 78126) = Return ths \<and>
          partitions 25600 2000000000 (issued ths)"
    using t by (auto simp: faster_config_ok)
qed

subsection \<open>C3: a read-modify-write counts as a write only on status 0\<close>

text \<open>
  C3: when the mixer selects a read-modify-write for an item of the measurement loop,
  \<open>writes_done\<close> is incremented by one if and only if the status the engine returns is 0;
  a nonzero status leaves \<open>writes_done\<close> unchanged, and \<open>reads_done\<close> is unchanged in
  both cases.
\<close>

theorem rmw_counted_iff_status_zero:
  assumes "fst (FN (rng w)) = ReadModifyWrite"
  shows "(writes_done (run_item K FN rmw idx w) = writes_done w + 1 \<longleftrightarrow> rmw idx = 0) \<and>
         (rmw idx \<noteq> 0 \<longrightarrow> writes_done (run_item K FN rmw idx w) = writes_done w) \<and>
         reads_done (run_item K FN rmw idx w) = reads_done w"
  using assms run_item_rmw(1,2) [where FN = FN and w = w and K = K and rmw = rmw and idx = idx]
  by simp

theorem rmw_counted_iff_status_zero_witness:
  "writes_done (run_item small_config ycsb_rmw_100 (\<lambda>idx. 0) 0
     (thread_run_benchmark_start (\<lambda>n. 0))) = 1 \<and>
   writes_done (run_item small_config ycsb_rmw_100 (\<lambda>idx. 3) 0
     (thread_run_benchmark_start (\<lambda>n. 0))) = 0 \<and>
   reads_done (run_item small_config ycsb_rmw_100 (\<lambda>idx. 3) 0
     (thread_run_benchmark_start (\<lambda>n. 0))) = 0"
proof -
  let ?w = "thread_run_benchmark_start (\<lambda>n. 0)"
  have sel: "fst (ycsb_rmw_100 (rng ?w)) = ReadModifyWrite" by (simp add: ycsb_rmw_100_def)
  have w: "writes_done ?w = 0" "reads_done ?w = 0" by (simp_all add: thread_run_benchmark_start_def)
  show ?thesis
    using sel
          rmw_counted_iff_status_zero [where FN = ycsb_rmw_100 and w = ?w and K = small_config
            and rmw = "\<lambda>idx. 0" and idx = 0]
          rmw_counted_iff_status_zero [where FN = ycsb_rmw_100 and w = ?w and K = small_config
            and rmw = "\<lambda>idx. 3" and idx = 0]
    by (simp add: w)
qed

subsection \<open>C4: the load test\<close>

text \<open>
  C4, as the code has it: the only test is \<open>expected \<noteq> count div 8\<close>, after the whole
  file has been copied. So loading is fatal (exit code 1) whenever a file holds fewer bytes
  than \<open>8 * expected\<close> (\<open>kInitCount\<close> for the load file, \<open>kTxnCount\<close> for the run file),
  whether or not its size is a multiple of 8, and two files with exactly the expected byte
  counts load successfully, the key buffers holding the files' bytes.
\<close>

theorem load_files_count_check:
  "(length load_bytes < 8 * kInitCount K \<longrightarrow> load_files K load_bytes run_bytes = Exit 1) \<and>
   (length load_bytes = 8 * kInitCount K \<and> length run_bytes < 8 * kTxnCount K \<longrightarrow>
      load_files K load_bytes run_bytes = Exit 1) \<and>
   (length load_bytes = 8 * kInitCount K \<and> length run_bytes = 8 * kTxnCount K \<longrightarrow>
      load_files K load_bytes run_bytes = Return (load_bytes, run_bytes))"
  by (simp add: load_files_def load_keys_eq)

theorem load_files_count_check_witness:
  "load_files faster_config [] [] = Exit 1 \<and>
   load_files faster_config (replicate 2000000000 0) [] = Exit 1 \<and>
   load_files faster_config (replicate 2000000000 0) (replicate 8000000000 0) =
     Return (replicate 2000000000 0, replicate 8000000000 0)"
proof -
  have K: "kInitCount faster_config = 250000000" "kTxnCount faster_config = 1000000000"
    by (simp_all add: faster_config_def)
  have l: "length (replicate 2000000000 (0::u8)) = 2000000000"
          "length (replicate 8000000000 (0::u8)) = 8000000000"
    by (simp_all only: length_replicate)
  show ?thesis
    using load_files_count_check [of "[]" faster_config "[]"]
          load_files_count_check [of "replicate 2000000000 0" faster_config "[]"]
          load_files_count_check [of "replicate 2000000000 0" faster_config "replicate 8000000000 0"]
    unfolding K l by simp
qed

text \<open>
  C4 as stated fails where it says that a byte count that is not a multiple of 8 is fatal:
  for a load file of \<open>8 * kInitCount + 1\<close> bytes the test \<open>kInitCount \<noteq> count div 8\<close>
  is false, and the process does not exit with the reported failure (the last byte has been
  stored one past the end of the key buffer).
\<close>

theorem load_keys_partial_record_not_reported:
  "\<not> count_mismatch (kInitCount faster_config) 2000000001 \<and>
   load_keys (kInitCount faster_config) (replicate 2000000001 0) \<noteq> Exit 1"
proof -
  have K: "kInitCount faster_config = 250000000"
    by (simp add: faster_config_def)
  have l: "length (replicate 2000000001 (0::u8)) = 2000000001"
    by (simp only: length_replicate)
  show ?thesis
    unfolding K load_keys_eq l by (simp add: count_mismatch_def)
qed

subsection \<open>C5: the cadence of session maintenance\<close>

text \<open>
  C5: in a worker's item loop a session refresh is issued exactly at the items whose
  index is a multiple of the refresh interval, and a non-blocking drain exactly at those
  whose index is a multiple of the complete-pending interval (a multiple of the refresh
  interval). The trace of a worker that has returned is: the start of the session; then,
  for each item of its chunks in order, the maintenance due at that item followed by the
  item's one data operation; then the blocking drain, which so occurs exactly once, after
  the last item of the last chunk; then the end of the session. This holds for the
  workers of the measurement phase and of the population phase.
\<close>

theorem session_maintenance_cadence:
  assumes "static_asserts K"
  shows "(faster_refresh_session \<in> set (refresh_and_drain K idx) \<longleftrightarrow>
            idx mod kRefreshInterval K = 0) \<and>
         (faster_complete_pending False \<in> set (refresh_and_drain K idx) \<longleftrightarrow>
            idx mod kCompletePendingInterval K = 0) \<and>
         faster_complete_pending True \<notin> set (refresh_and_drain K idx) \<and>
         (run_benchmark K D FN E W = Return (r, ws) \<longrightarrow>
            (\<forall>w\<in>set ws.
               calls w = faster_start_session #
                           weave K (worker_items K w) (data_ops (calls w)) @
                           [faster_complete_pending True, faster_stop_session] \<and>
               map item_key (data_ops (calls w)) = map Some (worker_items K w) \<and>
               count_list (calls w) (faster_complete_pending True) = 1)) \<and>
         (setup_store K W' sched = Return ths \<longrightarrow>
            (\<forall>s\<in>set ths.
               calls s = faster_start_session #
                           weave K (worker_items K s) (data_ops (calls s)) @
                           [faster_complete_pending True, faster_stop_session] \<and>
               map item_key (data_ops (calls s)) = map Some (worker_items K s) \<and>
               count_list (calls s) (faster_complete_pending True) = 1))"
proof (intro conjI impI ballI)
  show "faster_refresh_session \<in> set (refresh_and_drain K idx) \<longleftrightarrow> idx mod kRefreshInterval K = 0"
    by (rule refresh_cadence)
  show "faster_complete_pending False \<in> set (refresh_and_drain K idx) \<longleftrightarrow>
            idx mod kCompletePendingInterval K = 0"
    using assms by (intro drain_cadence) (simp add: static_asserts_def)
  show "faster_complete_pending True \<notin> set (refresh_and_drain K idx)"
    by (simp add: refresh_and_drain_def)
next
  fix w assume "run_benchmark K D FN E W = Return (r, ws)" "w \<in> set ws"
  then have p: "finished_paced K w"
    using run_benchmark_trace [of K D FN E W r ws] by (simp add: list_all_iff)
  show "calls w = faster_start_session # weave K (worker_items K w) (data_ops (calls w)) @
                    [faster_complete_pending True, faster_stop_session]"
    and "map item_key (data_ops (calls w)) = map Some (worker_items K w)"
    using p by (simp_all add: finished_paced_def)
  show "count_list (calls w) (faster_complete_pending True) = 1"
    using p by (rule finished_paced_once)
next
  fix s assume "setup_store K W' sched = Return ths" "s \<in> set ths"
  then have p: "finished_paced K s"
    using setup_store_trace [of K W' sched ths] by (simp add: list_all_iff)
  show "calls s = faster_start_session # weave K (worker_items K s) (data_ops (calls s)) @
                    [faster_complete_pending True, faster_stop_session]"
    and "map item_key (data_ops (calls s)) = map Some (worker_items K s)"
    using p by (simp_all add: finished_paced_def)
  show "count_list (calls s) (faster_complete_pending True) = 1"
    using p by (rule finished_paced_once)
qed

theorem session_maintenance_cadence_witness:
  "refresh_and_drain small_config 0 = [faster_refresh_session, faster_complete_pending False] \<and>
   refresh_and_drain small_config 8 = [faster_refresh_session] \<and>
   (\<exists>r ws. run_benchmark small_config symbolic ycsb_rmw_100 small_env 2 = Return (r, ws) \<and>
      calls (ws ! 0) =
        [faster_start_session, faster_refresh_session, faster_complete_pending False,
         faster_rmw 0 8 0 1, faster_refresh_session, faster_rmw 8 8 0 1,
         faster_refresh_session, faster_complete_pending False, faster_rmw 32 8 0 1,
         faster_refresh_session, faster_rmw 40 8 0 1,
         faster_complete_pending True, faster_stop_session] \<and>
      calls (ws ! 0) = faster_start_session #
         weave small_config (worker_items small_config (ws ! 0)) (data_ops (calls (ws ! 0))) @
         [faster_complete_pending True, faster_stop_session] \<and>
      count_list (calls (ws ! 0)) (faster_complete_pending True) = 1)"
proof -
  obtain r ws where b: "run_benchmark small_config symbolic ycsb_rmw_100 small_env 2 = Return (r, ws)"
    and v: "map worker_view ws = small_rmw_views"
    by (rule small_run_benchmark)
  note f = small_run_benchmark_fields [OF v]
  have mem: "ws ! 0 \<in> set ws" using f(5) by simp
  have c0: "calls (ws ! 0) = map fst small_rmw_views ! 0"
    using f(1,5) by (metis nth_map zero_less_numeral)
  note th = session_maintenance_cadence [OF small_config_ok(1), of _ symbolic ycsb_rmw_100 small_env 2 r ws]
  have "calls (ws ! 0) = faster_start_session #
         weave small_config (worker_items small_config (ws ! 0)) (data_ops (calls (ws ! 0))) @
         [faster_complete_pending True, faster_stop_session] \<and>
      count_list (calls (ws ! 0)) (faster_complete_pending True) = 1"
    using th b mem by blast
  moreover have "refresh_and_drain small_config 0 = [faster_refresh_session, faster_complete_pending False]"
    "refresh_and_drain small_config 8 = [faster_refresh_session]"
    by (simp_all add: refresh_and_drain_def small_config_def)
  ultimately show ?thesis using b c0 by (auto simp: small_rmw_views_def)
qed

subsection \<open>C6: the throughput figure\<close>

text \<open>
  C6: the figure a measurement phase returns is the sum of all workers' \<open>reads_done\<close>
  plus the sum of all workers' \<open>writes_done\<close>, divided by the sum of the workers' own
  durations in seconds (nanoseconds divided by \<open>kNanosPerSecond\<close>); the wall-clock span
  of the phase does not enter. The three sums are the 64-bit accumulators, and the
  arithmetic on \<^verbatim>\<open>double\<close> is the conversion, addition and division of \<open>D\<close>.
\<close>

theorem throughput_is_operations_per_summed_duration:
  assumes "run_benchmark K D FN E W = Return (r, ws)"
  shows "r = double_div D
           (double_add D (double_of D (sum_list (map reads_done ws)))
                         (double_of D (sum_list (map writes_done ws))))
           (double_div D (double_of D (sum_list (map (duration E) [0..<W])))
                         (double_of D kNanosPerSecond)) \<and>
         length ws = W"
  using run_benchmark_throughput [OF assms] run_benchmark_Return [OF assms] by simp

theorem throughput_is_operations_per_summed_duration_witness:
  "\<exists>r ws. run_benchmark small_config symbolic ycsb_rmw_100 small_env 2 = Return (r, ws) \<and>
     map reads_done ws = [0, 0] \<and> map writes_done ws = [3, 4] \<and>
     map (duration small_env) [0..<2] = [1000, 1000] \<and>
     r = DDiv (DAdd (DConst (0 + 0)) (DConst (3 + 4)))
              (DDiv (DConst (1000 + 1000)) (DConst kNanosPerSecond))"
proof -
  obtain r ws where b: "run_benchmark small_config symbolic ycsb_rmw_100 small_env 2 = Return (r, ws)"
    and v: "map worker_view ws = small_rmw_views"
    by (rule small_run_benchmark)
  note f = small_run_benchmark_fields [OF v]
  have d: "map (duration small_env) [0..<2] = [1000, 1000]"
    by (simp add: small_env_def upt_rec numeral_2_eq_2)
  have "r = DDiv (DAdd (DConst (0 + 0)) (DConst (3 + 4)))
              (DDiv (DConst (1000 + 1000)) (DConst kNanosPerSecond))"
    using throughput_is_operations_per_summed_duration [OF b]
    unfolding f(3,4) d by (simp add: symbolic_def)
  then show ?thesis using b f(3,4) d by (intro exI [of _ r] exI [of _ ws]) simp
qed

subsection \<open>C7: exit codes\<close>

text \<open>
  C7, as the code has it: the process ends with code 0 on a bad argument count
  (\<^verbatim>\<open>exit(0)\<close>) and on success (\<^verbatim>\<open>main\<close> returns 0 once every trial has run); it ends
  with code 1 when a key file holds fewer bytes than 8 times the expected count, which is
  the mismatch that the load test \<open>expected \<noteq> count div 8\<close> reports, when the workload is
  an integer outside \<open>{0, 1, 2, 3}\<close> (after the first population phase), and when a mixer
  selects \<open>Scan\<close>: the worker calls \<^verbatim>\<open>exit(1)\<close>, and 1 is the only code with which a
  measurement phase exits. Success and the unknown workload are stated for threads that
  all run until the counter is exhausted.
\<close>

theorem exit_codes:
  "(argc args \<noteq> 5 \<longrightarrow> snd (main K D args E) = Exit 0) \<and>
   (argc args = 5 \<and>
    (length (load_file args) < 8 * kInitCount K \<or>
     length (load_file args) = 8 * kInitCount K \<and> length (run_file args) < 8 * kTxnCount K)
      \<longrightarrow> snd (main K D args E) = Exit 1) \<and>
   (argc args = 5 \<and> length (load_file args) = 8 * kInitCount K \<and>
    length (run_file args) = 8 * kTxnCount K \<and> static_asserts K \<and>
    fits_u64 K (num_threads args) \<and>
    fair 48 (kInitCount K * 8 div kChunkSize K) (population_schedule E 0) \<and>
    workload args \<notin> {0, 1, 2, 3}
      \<longrightarrow> snd (main K D args E) = Exit 1) \<and>
   (argc args = 5 \<and> length (load_file args) = 8 * kInitCount K \<and>
    length (run_file args) = 8 * kTxnCount K \<and> static_asserts K \<and>
    fits_u64 K (num_threads args) \<and> env_fair K (num_threads args) E \<and>
    workload args \<in> {0, 1, 2, 3}
      \<longrightarrow> snd (main K D args E) = Return 0) \<and>
   (fst (FN (rng w)) = Scan \<longrightarrow> status (run_item K FN rmw idx w) = Exited 1) \<and>
   (run_benchmark K D FN E' W = Exit c \<longrightarrow> c = 1)"
proof (intro conjI impI)
  assume "argc args \<noteq> 5"
  then show "snd (main K D args E) = Exit 0" by (rule main_bad_argc)
next
  assume "argc args = 5 \<and>
    (length (load_file args) < 8 * kInitCount K \<or>
     length (load_file args) = 8 * kInitCount K \<and> length (run_file args) < 8 * kTxnCount K)"
  then show "snd (main K D args E) = Exit 1" using main_load_mismatch by blast
next
  assume "argc args = 5 \<and> length (load_file args) = 8 * kInitCount K \<and>
    length (run_file args) = 8 * kTxnCount K \<and> static_asserts K \<and>
    fits_u64 K (num_threads args) \<and>
    fair 48 (kInitCount K * 8 div kChunkSize K) (population_schedule E 0) \<and>
    workload args \<notin> {0, 1, 2, 3}"
  then show "snd (main K D args E) = Exit 1" using main_unknown_workload by blast
next
  assume "argc args = 5 \<and> length (load_file args) = 8 * kInitCount K \<and>
    length (run_file args) = 8 * kTxnCount K \<and> static_asserts K \<and>
    fits_u64 K (num_threads args) \<and> env_fair K (num_threads args) E \<and>
    workload args \<in> {0, 1, 2, 3}"
  then show "snd (main K D args E) = Return 0" using main_success(1) by blast
next
  assume "fst (FN (rng w)) = Scan"
  then show "status (run_item K FN rmw idx w) = Exited 1" by (rule run_item_scan)
next
  assume "run_benchmark K D FN E' W = Exit c"
  then show "c = 1" by (rule run_benchmark_exit_code)
qed

theorem exit_codes_witness:
  "snd (main faster_config symbolic ((full_args 1 4)\<lparr>argc := 3\<rparr>) (round_robin_env 4)) = Exit 0 \<and>
   snd (main faster_config symbolic ((full_args 1 4)\<lparr>load_file := []\<rparr>) (round_robin_env 4)) = Exit 1 \<and>
   snd (main faster_config symbolic (full_args 4 4) (round_robin_env 4)) = Exit 1 \<and>
   snd (main faster_config symbolic (full_args 1 4) (round_robin_env 4)) = Return 0 \<and>
   status (run_item small_config (\<lambda>g. (Scan, g)) (\<lambda>idx. 0) 0 (thread_run_benchmark_start (\<lambda>n. 0)))
     = Exited 1 \<and>
   run_benchmark small_config symbolic (\<lambda>g. (Scan, g)) small_env 2 = Exit 1"
proof -
  have fits: "fits_u64 faster_config 4" by (simp add: faster_config_fits)
  have fair0: "fair 48 (kInitCount faster_config * 8 div kChunkSize faster_config)
                 (population_schedule (round_robin_env 4) 0)"
    using round_robin_env_fair [of 4] by (simp add: env_fair_def)
  have "(case run_benchmark small_config symbolic (\<lambda>g. (Scan, g)) small_env 2 of
           Exit c \<Rightarrow> c = 1 | _ \<Rightarrow> False)"
    by code_simp
  then have scan: "run_benchmark small_config symbolic (\<lambda>g. (Scan, g)) small_env 2 = Exit 1"
    by (cases "run_benchmark small_config symbolic (\<lambda>g. (Scan, g)) small_env 2") simp_all
  let ?w = "thread_run_benchmark_start (\<lambda>n. 0)"
  note th = exit_codes [where K = faster_config and D = symbolic and E = "round_robin_env 4"
      and FN = "\<lambda>g. (Scan, g)" and w = ?w and rmw = "\<lambda>idx. 0" and idx = 0 and E' = small_env
      and W = 2 and c = 1]
  have 1: "snd (main faster_config symbolic ((full_args 1 4)\<lparr>argc := 3\<rparr>) (round_robin_env 4)) = Exit 0"
    using th [where args = "(full_args 1 4)\<lparr>argc := 3\<rparr>"] by simp
  have 2: "snd (main faster_config symbolic ((full_args 1 4)\<lparr>load_file := []\<rparr>) (round_robin_env 4)) = Exit 1"
    using th [where args = "(full_args 1 4)\<lparr>load_file := []\<rparr>"]
    by (simp add: full_args_ok faster_config_ok)
  have 3: "snd (main faster_config symbolic (full_args 4 4) (round_robin_env 4)) = Exit 1"
    using th [where args = "full_args 4 4"] fits fair0
    by (simp add: full_args_ok faster_config_ok(1))
  have 4: "snd (main faster_config symbolic (full_args 1 4) (round_robin_env 4)) = Return 0"
    using th [where args = "full_args 1 4"] fits round_robin_env_fair [of 4]
    by (simp add: full_args_ok faster_config_ok(1))
  have 5: "status (run_item small_config (\<lambda>g. (Scan, g)) (\<lambda>idx. 0) 0 ?w) = Exited 1"
    using exit_codes [where FN = "\<lambda>g. (Scan, g)" and w = ?w and K = small_config
            and rmw = "\<lambda>idx. 0" and idx = 0 and D = symbolic and E = "round_robin_env 4"
            and E' = small_env and W = 2 and c = 1 and args = "full_args 1 4"]
    by simp
  show ?thesis using 1 2 3 4 5 scan by simp
qed

text \<open>
  C7 as stated fails where it says that every file-load mismatch ends the process with
  code 1: with a load file of \<open>8 * kInitCount + 1\<close> bytes, which is neither a multiple of 8
  nor the expected byte count, the load test \<open>kInitCount \<noteq> count div 8\<close> is false, and
  \<^verbatim>\<open>main\<close> does not end with code 1 (the last byte has been stored one past the end of
  the key buffer, and nothing is reported).
\<close>

theorem main_load_mismatch_without_exit_1:
  "length (load_file ((full_args 1 4)\<lparr>load_file := replicate 2000000001 0\<rparr>)) mod 8 \<noteq> 0 \<and>
   length (load_file ((full_args 1 4)\<lparr>load_file := replicate 2000000001 0\<rparr>))
     \<noteq> 8 * kInitCount faster_config \<and>
   \<not> count_mismatch (kInitCount faster_config)
       (length (load_file ((full_args 1 4)\<lparr>load_file := replicate 2000000001 0\<rparr>))) \<and>
   snd (main faster_config symbolic ((full_args 1 4)\<lparr>load_file := replicate 2000000001 0\<rparr>)
          (round_robin_env 4)) \<noteq> Exit 1"
proof -
  let ?args = "(full_args 1 4)\<lparr>load_file := replicate 2000000001 0\<rparr>"
  have K: "kInitCount faster_config = 250000000"
    by (simp add: faster_config_def)
  have "length (load_file ?args) = length (replicate 2000000001 (0::u8))"
    by simp
  then have l: "length (load_file ?args) = 2000000001"
    by (simp only: length_replicate)
  have a: "argc ?args = 5"
    by (simp add: full_args_def)
  have g: "8 * kInitCount faster_config < length (load_file ?args)"
    unfolding K l by simp
  have "snd (main faster_config symbolic ?args (round_robin_env 4)) = Overrun"
    using a g by (rule main_load_overrun)
  then have m: "snd (main faster_config symbolic ?args (round_robin_env 4)) \<noteq> Exit 1"
    by simp
  have t: "\<not> count_mismatch (kInitCount faster_config) (length (load_file ?args))"
    unfolding K l by (simp add: count_mismatch_def)
  have d: "length (load_file ?args) mod 8 \<noteq> 0"
    unfolding l by simp
  have n: "length (load_file ?args) \<noteq> 8 * kInitCount faster_config"
    unfolding K l by simp
  show ?thesis using d n t m by (intro conjI)
qed

subsection \<open>C8: the 50/50 mixer\<close>

text \<open>
  C8, as the code has it: \<open>ycsb_a_50_50\<close> maps a draw \<open>r\<close> to a read when
  \<open>r mod 100 < 50\<close> and to an upsert otherwise. Of the \<open>2 ^ 32\<close> possible 32-bit draws,
  2147483650 select a read and 2147483646 a write: the split is even up to the four
  draws by which \<open>2 ^ 32 mod 100 = 96\<close> falls short of a full block of 100.
\<close>

theorem ycsb_a_50_50_split:
  "card {r::u32. a_50_50_of_draw r = Read} = 2147483650 \<and>
   card {r::u32. a_50_50_of_draw r = Upsert} = 2147483646 \<and>
   card {r::u32. a_50_50_of_draw r = Read} + card {r::u32. a_50_50_of_draw r = Upsert} = 2 ^ 32"
  by (simp add: card_reads card_writes)

text \<open>
  C8 as stated (exactly half of the draws select a read and exactly half a write) fails:
  half of \<open>2 ^ 32\<close> is 2147483648.
\<close>

theorem ycsb_a_50_50_not_exactly_half:
  "\<not> (card {r::u32. a_50_50_of_draw r = Read} = 2 ^ 31 \<and>
      card {r::u32. a_50_50_of_draw r = Upsert} = 2 ^ 31)"
  by (simp add: card_reads)

subsection \<open>C9: the modification length\<close>

text \<open>
  C9, as the code has it: every read-modify-write the measurement loop issues passes key
  length 8 and modification length 1 (with \<open>modification[0] = 0\<close>), while the callback
  \<open>rmw_cb\<close> asserts that both its \<open>length\<close> and its \<open>modification_length\<close> are 8: called
  with the caller's modification length it fails the assertion, so the caller does not
  establish what the callback asserts. The callback reads one byte of the modification
  buffer, the first; no other byte of it has any effect.
\<close>

theorem rmw_modification_length_mismatch:
  "(run_benchmark K D FN E W = Return (r, ws) \<longrightarrow>
      (\<forall>w\<in>set ws. \<forall>key key_length m modification_length.
         faster_rmw key key_length m modification_length \<in> set (calls w) \<longrightarrow>
         key_length = 8 \<and> modification_length = 1)) \<and>
   (fst (FN (rng w)) = ReadModifyWrite \<longrightarrow>
      calls (run_item K FN rmw idx w) =
        calls w @ refresh_and_drain K idx @ [faster_rmw idx 8 0 1]) \<and>
   (rmw_cb False current len modification ml dst val \<noteq> Inl AssertionFailed \<longleftrightarrow>
      len = 8 \<and> ml = 8) \<and>
   rmw_cb False current len modification 1 dst val = Inl AssertionFailed \<and>
   rmw_cb ndebug current len (b # bs) ml dst val = rmw_cb ndebug current len [b] ml dst val"
proof (intro conjI ballI allI impI)
  fix w key key_length m modification_length
  assume a: "run_benchmark K D FN E W = Return (r, ws)" "w \<in> set ws"
    "faster_rmw key key_length m modification_length \<in> set (calls w)"
  have "list_all rmw_lengths_ok (calls w)"
    using run_benchmark_rmw_lengths [OF a(1)] a(2) by (simp add: list_all_iff)
  then have "rmw_lengths_ok (faster_rmw key key_length m modification_length)"
    using a(3) unfolding list_all_iff by blast
  then show "key_length = 8" "modification_length = 1" by simp_all
next
  assume "fst (FN (rng w)) = ReadModifyWrite"
  then show "calls (run_item K FN rmw idx w) =
        calls w @ refresh_and_drain K idx @ [faster_rmw idx 8 0 1]"
    by (rule run_item_rmw)
next
  show "rmw_cb False current len modification ml dst val \<noteq> Inl AssertionFailed \<longleftrightarrow>
      len = 8 \<and> ml = 8" by (rule rmw_cb_asserts)
  show "rmw_cb False current len modification 1 dst val = Inl AssertionFailed"
    by (simp add: rmw_cb_def)
  show "rmw_cb ndebug current len (b # bs) ml dst val = rmw_cb ndebug current len [b] ml dst val"
    by (rule rmw_cb_first_byte_only)
qed

theorem rmw_modification_length_mismatch_witness:
  "\<exists>r ws. run_benchmark small_config symbolic ycsb_rmw_100 small_env 2 = Return (r, ws) \<and>
     faster_rmw 0 8 0 1 \<in> set (calls (ws ! 0)) \<and>
     rmw_cb False [5, 0, 0, 0, 0, 0, 0, 0] 8 [0] 1 (Some (replicate 8 0)) (replicate 8 0)
       = Inl AssertionFailed"
proof -
  obtain r ws where b: "run_benchmark small_config symbolic ycsb_rmw_100 small_env 2 = Return (r, ws)"
    and v: "map worker_view ws = small_rmw_views"
    by (rule small_run_benchmark)
  note f = small_run_benchmark_fields [OF v]
  have mem: "ws ! 0 \<in> set ws" using f(5) by simp
  have c0: "calls (ws ! 0) = map fst small_rmw_views ! 0"
    using f(1,5) by (metis nth_map zero_less_numeral)
  then have in0: "faster_rmw 0 8 0 1 \<in> set (calls (ws ! 0))" by (simp add: small_rmw_views_def)
  note th = rmw_modification_length_mismatch [where K = small_config and D = symbolic
      and FN = ycsb_rmw_100 and E = small_env and W = 2 and r = r and ws = ws
      and current = "[5, 0, 0, 0, 0, 0, 0, 0]" and len = 8 and modification = "[0]"
      and dst = "Some (replicate 8 0)" and val = "replicate 8 0"]
  have "rmw_cb False [5, 0, 0, 0, 0, 0, 0, 0] 8 [0] 1 (Some (replicate 8 0)) (replicate 8 0)
       = Inl AssertionFailed"
    using th by blast
  then show ?thesis using b in0 by (intro exI [of _ r] exI [of _ ws]) simp
qed

text \<open>
  C9 as stated says that the callback reads 8 bytes from the modification buffer. It does
  not: with the assertions compiled out it runs to its end on a modification buffer of one
  byte, and with 8-byte buffers the seven bytes after the first do not change what it
  returns.
\<close>

theorem rmw_cb_reads_one_modification_byte:
  "rmw_cb True [5, 0, 0, 0, 0, 0, 0, 0] 8 [7] 1 (Some (replicate 8 0)) (replicate 8 9)
     = Inr (8, Some [12, 9, 9, 9, 9, 9, 9, 9]) \<and>
   rmw_cb False [5, 0, 0, 0, 0, 0, 0, 0] 8 [7, 1, 2, 3, 4, 5, 6, 7] 8 (Some (replicate 8 0))
       (replicate 8 9)
     = rmw_cb False [5, 0, 0, 0, 0, 0, 0, 0] 8 [7, 0, 0, 0, 0, 0, 0, 0] 8 (Some (replicate 8 0))
         (replicate 8 9)"
  by code_simp

subsection \<open>C10: the population phase has 48 threads\<close>



end
